theory Spec2Isabelle
  imports Main "HOL-Library.Sublist"
begin

section \<open>Machine integers and bit sets\<close>

text \<open>
  Go's \<open>uint\<close> is a 64-bit unsigned integer. Lengths and bit indices are natural numbers
  below \<open>2 ^ 64\<close>; subtraction and addition on them wrap around, which the code relies on
  in \<open>FindCommonKey\<close> (\<open>shorterKey.Len()-divergentBit+1\<close> passes through \<open>2 ^ 64 - 1\<close>
  when the shorter key is a prefix of the longer one).
\<close>

definition usub :: "nat \<Rightarrow> nat \<Rightarrow> nat" where
  "usub a b = (a + 2 ^ 64 - b) mod 2 ^ 64"

definition uadd :: "nat \<Rightarrow> nat \<Rightarrow> nat" where
  "uadd a b = (a + b) mod 2 ^ 64"

text \<open>
  A \<open>bitset.BitSet\<close> (package bits-and-blooms/bitset, not part of the repository) is
  modelled by the list of its bits, most significant first: the head of the list is bit
  \<open>Len - 1\<close>, the last element is bit \<open>0\<close>. This is the order in which the trie reads a
  key as a path from the root. A \<open>nil\<close> pointer is \<open>None\<close> of \<open>BitSet option\<close>.
\<close>

type_synonym BitSet = "bool list"

definition Len :: "BitSet \<Rightarrow> nat" where
  "Len b = length b"

text \<open>\<open>Test(i)\<close> is false for an index at or beyond the length.\<close>

definition Test :: "BitSet \<Rightarrow> nat \<Rightarrow> bool" where
  "Test b i = (i < length b \<and> b ! (length b - 1 - i))"

text \<open>
  \<open>DeleteAt(i)\<close> removes bit \<open>i\<close> and moves the higher bits down by one. An index
  beyond the stored words is an index-out-of-range panic of the Go runtime: \<open>None\<close>.
\<close>

definition DeleteAt :: "BitSet \<Rightarrow> nat \<Rightarrow> BitSet option" where
  "DeleteAt b i =
     (if i < length b then Some (take (length b - 1 - i) b @ drop (length b - i) b)
      else None)"

text \<open>
  \<open>Shrink(lastbitindex)\<close> keeps the bits \<open>0 .. lastbitindex\<close>; the new length
  \<open>lastbitindex + 1\<close> is computed in \<open>uint\<close>. When the new length needs more words than
  the set holds, the library returns the set unchanged; here that is every new length
  above the current one (such lengths only arise from a wrapped subtraction).
\<close>

definition Shrink :: "BitSet \<Rightarrow> nat \<Rightarrow> BitSet" where
  "Shrink b lastbitindex =
     (let length' = uadd lastbitindex 1
      in if length' \<le> length b then drop (length b - length') b else b)"

section \<open>Bit-path arithmetic of the trie\<close>

text \<open>
  The first loop of \<open>FindCommonKey\<close>: \<open>divergentBit\<close> counts up while it is at most
  \<open>shorterKey.Len()\<close> and both keys agree on the bit \<open>Len() - divergentBit\<close>. The
  increment cannot wrap, because the loop condition bounds the counter by a length.
\<close>

function divergentBit_loop :: "BitSet \<Rightarrow> BitSet \<Rightarrow> nat \<Rightarrow> nat" where
  "divergentBit_loop longerKey shorterKey divergentBit =
     (if divergentBit \<le> Len shorterKey \<and>
         Test longerKey (usub (Len longerKey) divergentBit) =
         Test shorterKey (usub (Len shorterKey) divergentBit)
      then divergentBit_loop longerKey shorterKey (divergentBit + 1)
      else divergentBit)"
  by pat_completeness auto
termination
  by (relation "measure (\<lambda>(l, s, d). Suc (Len s) - d)") auto

declare divergentBit_loop.simps [simp del]

text \<open>The second loop: \<open>n\<close> times \<open>commonKey.DeleteAt(0)\<close>.\<close>

primrec DeleteAt0_times :: "nat \<Rightarrow> BitSet \<Rightarrow> BitSet option" where
  "DeleteAt0_times 0 b = Some b"
| "DeleteAt0_times (Suc n) b =
     (case DeleteAt b 0 of None \<Rightarrow> None | Some b' \<Rightarrow> DeleteAt0_times n b')"

definition FindCommonKey :: "BitSet \<Rightarrow> BitSet \<Rightarrow> (BitSet \<times> bool) option" where
  "FindCommonKey longerKey shorterKey =
     (let divergentBit = divergentBit_loop longerKey shorterKey 0
      in case DeleteAt0_times (uadd (usub (Len shorterKey) divergentBit) 1) shorterKey of
           None \<Rightarrow> None
         | Some commonKey \<Rightarrow> Some (commonKey, divergentBit = uadd (Len shorterKey) 1))"

text \<open>
  \<open>Path(key, parentKey)\<close>: \<open>None\<close> as the second argument is the \<open>nil\<close> parent of the
  root. The result \<open>None\<close> is the runtime panic of \<open>DeleteAt\<close>.
\<close>

definition Path :: "BitSet \<Rightarrow> BitSet option \<Rightarrow> BitSet option" where
  "Path k parentKey =
     (case parentKey of
        None \<Rightarrow> Some k
      | Some pk \<Rightarrow>
          (let path = Shrink k (usub (usub (Len k) (Len pk)) 1)
           in DeleteAt path (usub (Len path) 1)))"

section \<open>Nodes, node store and trie\<close>

type_synonym felt = nat

record Node =
  "value" :: felt
  left :: "BitSet option"
  right :: "BitSet option"

record storageNode =
  key :: BitSet
  node :: Node

datatype error = ErrKeyNotFound | ErrStoreIO

datatype 'a result = Ok 'a | Err error | Panic string

definition on_ok :: "'a result \<times> 's \<Rightarrow> ('a \<Rightarrow> 's \<Rightarrow> 'b result \<times> 's) \<Rightarrow> 'b result \<times> 's" where
  "on_ok m f = (case m of (Ok a, s) \<Rightarrow> f a s | (Err e, s) \<Rightarrow> (Err e, s) | (Panic p, s) \<Rightarrow> (Panic p, s))"

datatype storage_op = OpGet BitSet | OpPut BitSet Node | OpDelete BitSet

record Storage =
  contents :: "BitSet \<rightharpoonup> Node"
  faults :: "bool list"
  trace :: "storage_op list"

definition fails :: "Storage \<Rightarrow> bool" where
  "fails s = (case faults s of [] \<Rightarrow> False | f # _ \<Rightarrow> f)"

definition tick :: "storage_op \<Rightarrow> Storage \<Rightarrow> Storage" where
  "tick op s = s\<lparr>faults := tl (faults s), trace := trace s @ [op]\<rparr>"

definition Storage_Get :: "Storage \<Rightarrow> BitSet \<Rightarrow> Node result \<times> Storage" where
  "Storage_Get s k =
     (if fails s then (Err ErrStoreIO, tick (OpGet k) s)
      else case contents s k of
             None \<Rightarrow> (Err ErrKeyNotFound, tick (OpGet k) s)
           | Some n \<Rightarrow> (Ok n, tick (OpGet k) s))"

definition Storage_Put :: "Storage \<Rightarrow> BitSet \<Rightarrow> Node \<Rightarrow> unit result \<times> Storage" where
  "Storage_Put s k n =
     (if fails s then (Err ErrStoreIO, tick (OpPut k n) s)
      else (Ok (), (tick (OpPut k n) s)\<lparr>contents := (contents s)(k \<mapsto> n)\<rparr>))"

definition Storage_Delete :: "Storage \<Rightarrow> BitSet \<Rightarrow> unit result \<times> Storage" where
  "Storage_Delete s k =
     (if fails s then (Err ErrStoreIO, tick (OpDelete k) s)
      else (Ok (), (tick (OpDelete k) s)\<lparr>contents := (contents s)(k := None)\<rparr>))"

record hashing =
  Pedersen :: "felt \<Rightarrow> felt \<Rightarrow> felt"
  Hash :: "Node \<Rightarrow> BitSet \<Rightarrow> felt"

record Trie =
  height :: nat
  rootKey :: "BitSet option"
  storage :: Storage

definition NewTrie :: "Storage \<Rightarrow> nat \<Rightarrow> BitSet option \<Rightarrow> Trie" where
  "NewTrie s h rk = \<lparr>height = h, rootKey = rk, storage = s\<rparr>"

definition storage_Get :: "Trie \<Rightarrow> BitSet \<Rightarrow> Node result \<times> Trie" where
  "storage_Get t k = (case Storage_Get (storage t) k of (r, s) \<Rightarrow> (r, t\<lparr>storage := s\<rparr>))"

definition storage_Put :: "Trie \<Rightarrow> BitSet \<Rightarrow> Node \<Rightarrow> unit result \<times> Trie" where
  "storage_Put t k n = (case Storage_Put (storage t) k n of (r, s) \<Rightarrow> (r, t\<lparr>storage := s\<rparr>))"

definition storage_Delete :: "Trie \<Rightarrow> BitSet \<Rightarrow> unit result \<times> Trie" where
  "storage_Delete t k = (case Storage_Delete (storage t) k of (r, s) \<Rightarrow> (r, t\<lparr>storage := s\<rparr>))"

definition FeltToBitSet :: "Trie \<Rightarrow> felt \<Rightarrow> BitSet" where
  "FeltToBitSet t k = map (bit k) (rev [0..<height t])"

partial_function (option) nodesFromRoot_loop ::
  "BitSet \<Rightarrow> BitSet option \<Rightarrow> storageNode list \<Rightarrow> Trie \<Rightarrow> (storageNode list result \<times> Trie) option" where
  "nodesFromRoot_loop k cur nodes t =
     (case cur of
        None \<Rightarrow> Some (Ok nodes, t)
      | Some c \<Rightarrow>
          (case storage_Get t c of
             (Err e, t') \<Rightarrow> Some (Err e, t')
           | (Panic p, t') \<Rightarrow> Some (Panic p, t')
           | (Ok n, t') \<Rightarrow>
               (let nodes' = nodes @ [\<lparr>key = c, node = n\<rparr>]
                in case FindCommonKey k c of
                     None \<Rightarrow> Some (Panic ''index out of range'', t')
                   | Some (commonKey, isSubset) \<Rightarrow>
                       if Len c \<ge> Len k \<or> \<not> isSubset then Some (Ok nodes', t')
                       else nodesFromRoot_loop k
                              (if Test k (usub (usub (Len k) (Len c)) 1) then right n else left n)
                              nodes' t')))"

declare nodesFromRoot_loop.simps [code]

definition nodesFromRoot :: "Trie \<Rightarrow> BitSet \<Rightarrow> (storageNode list result \<times> Trie) option" where
  "nodesFromRoot t k = nodesFromRoot_loop k (rootKey t) [] t"

definition propagateValues_step :: "hashing \<Rightarrow> storageNode \<Rightarrow> Trie \<Rightarrow> unit result \<times> Trie" where
  "propagateValues_step hs cur t =
     (if (left (node cur) = None) \<noteq> (right (node cur) = None) then (Panic ''should not happen'', t)
      else case left (node cur) of
        None \<Rightarrow> storage_Put t (key cur) (node cur)
      | Some l \<Rightarrow>
         (case right (node cur) of
            None \<Rightarrow> storage_Put t (key cur) (node cur)
          | Some r \<Rightarrow>
              on_ok (storage_Get t l) (\<lambda>leftNode t1.
              on_ok (storage_Get t1 r) (\<lambda>rightNode t2.
                case Path l (Some (key cur)) of
                  None \<Rightarrow> (Panic ''index out of range'', t2)
                | Some leftPath \<Rightarrow>
                   (case Path r (Some (key cur)) of
                      None \<Rightarrow> (Panic ''index out of range'', t2)
                    | Some rightPath \<Rightarrow>
                        storage_Put t2 (key cur)
                          ((node cur)\<lparr>value :=
                             Pedersen hs (Hash hs leftNode leftPath) (Hash hs rightNode rightPath)\<rparr>))))))"

fun propagateValues :: "hashing \<Rightarrow> Trie \<Rightarrow> storageNode list \<Rightarrow> unit result \<times> Trie" where
  "propagateValues hs t [] = (Ok (), t)"
| "propagateValues hs t (cur # deeper) =
     on_ok (propagateValues hs t deeper) (\<lambda>_ t'. propagateValues_step hs cur t')"

definition replace_link :: "storageNode \<Rightarrow> BitSet \<Rightarrow> BitSet option \<Rightarrow> storageNode" where
  "replace_link parent old new =
     (if left (node parent) = Some old
      then parent\<lparr>node := (node parent)\<lparr>left := new\<rparr>\<rparr>
      else parent\<lparr>node := (node parent)\<lparr>right := new\<rparr>\<rparr>)"

definition deleteLast :: "hashing \<Rightarrow> Trie \<Rightarrow> storageNode list \<Rightarrow> unit result \<times> Trie" where
  "deleteLast hs t affectedNodes =
     (let n = length affectedNodes in
      if n = 0 then (Panic ''index out of range'', t)
      else
        let lst = affectedNodes ! (n - 1) in
        on_ok (storage_Delete t (key lst)) (\<lambda>_ t1.
          if n = 1 then (Ok (), t1\<lparr>rootKey := None\<rparr>)
          else
            let parent = affectedNodes ! (n - 2) in
            on_ok (storage_Delete t1 (key parent)) (\<lambda>_ t2.
              let siblingKey = (if left (node parent) = Some (key lst)
                                then right (node parent) else left (node parent))
              in
                if n = 2 then (Ok (), t2\<lparr>rootKey := siblingKey\<rparr>)
                else
                  let grandParent = affectedNodes ! (n - 3);
                      grandParent' = replace_link grandParent (key parent) siblingKey
                  in case siblingKey of
                       None \<Rightarrow> (Panic ''nil pointer dereference'', t2)
                     | Some sk \<Rightarrow>
                         on_ok (storage_Get t2 sk) (\<lambda>sibling t3.
                           propagateValues hs t3
                             ((take (n - 2) affectedNodes)[n - 3 := grandParent']
                                @ [\<lparr>key = sk, node = sibling\<rparr>])))))"

definition Put_found ::
  "hashing \<Rightarrow> Trie \<Rightarrow> Node \<Rightarrow> storageNode list \<Rightarrow> unit result \<times> Trie" where
  "Put_found hs t nd nodes =
     (let nodes' = nodes[length nodes - 1 := (last nodes)\<lparr>node := nd\<rparr>]
      in if value nd = 0 then deleteLast hs t nodes' else propagateValues hs t nodes')"

definition Put_new ::
  "hashing \<Rightarrow> Trie \<Rightarrow> BitSet \<Rightarrow> Node \<Rightarrow> storageNode list \<Rightarrow> unit result \<times> Trie" where
  "Put_new hs t nodeKey nd nodes =
     (let sibling = last nodes in
      case FindCommonKey nodeKey (key sibling) of
        None \<Rightarrow> (Panic ''index out of range'', t)
      | Some (commonKey, isSubset) \<Rightarrow>
          let newParent =
                (if Test nodeKey (usub (usub (Len nodeKey) (Len commonKey)) 1)
                 then \<lparr>value = 0, left = Some (key sibling), right = Some nodeKey\<rparr>
                 else \<lparr>value = 0, left = Some nodeKey, right = Some (key sibling)\<rparr>);
              makeRoot = (length nodes = 1);
              nodes1 =
                (if makeRoot then nodes
                 else
                   let siblingParent = nodes ! (length nodes - 2) in
                   nodes[length nodes - 2 :=
                     replace_link siblingParent (key sibling) (Some commonKey)]);
              nodes2 = nodes1[length nodes - 1 := \<lparr>key = commonKey, node = newParent\<rparr>]
                         @ [\<lparr>key = nodeKey, node = nd\<rparr>]
          in on_ok (propagateValues hs t nodes2) (\<lambda>_ t'.
               if makeRoot then (Ok (), t'\<lparr>rootKey := Some commonKey\<rparr>) else (Ok (), t')))"

definition Put :: "hashing \<Rightarrow> Trie \<Rightarrow> felt \<Rightarrow> felt \<Rightarrow> (unit result \<times> Trie) option" where
  "Put hs t k v =
     (let nodeKey = FeltToBitSet t k;
          nd = \<lparr>value = v, left = None, right = None\<rparr>
      in case rootKey t of
           None \<Rightarrow>
             if v = 0 then Some (Ok (), t)
             else Some (on_ok (propagateValues hs t [\<lparr>key = nodeKey, node = nd\<rparr>])
                          (\<lambda>_ t'. (Ok (), t'\<lparr>rootKey := Some nodeKey\<rparr>)))
         | Some rk \<Rightarrow>
             (case nodesFromRoot t nodeKey of
                None \<Rightarrow> None
              | Some (Err e, t') \<Rightarrow> Some (Err e, t')
              | Some (Panic p, t') \<Rightarrow> Some (Panic p, t')
              | Some (Ok nodes, t') \<Rightarrow>
                  if nodes = [] then Some (Panic ''index out of range'', t')
                  else if nodeKey = key (last nodes) then Some (Put_found hs t' nd nodes)
                  else if v = 0 then Some (Ok (), t')
                  else Some (Put_new hs t' nodeKey nd nodes)))"

definition Get :: "Trie \<Rightarrow> felt \<Rightarrow> felt result \<times> Trie" where
  "Get t k = on_ok (storage_Get t (FeltToBitSet t k)) (\<lambda>n t'. (Ok (value n), t'))"

definition Root :: "hashing \<Rightarrow> Trie \<Rightarrow> felt result \<times> Trie" where
  "Root hs t =
     (case rootKey t of
        None \<Rightarrow> (Ok 0, t)
      | Some rk \<Rightarrow>
          on_ok (storage_Get t rk) (\<lambda>root t'.
            case Path rk None of
              None \<Rightarrow> (Panic ''index out of range'', t')
            | Some path \<Rightarrow> (Ok (Hash hs root path), t')))"


definition emptyStorage :: Storage where
  "emptyStorage = \<lparr>contents = Map.empty, faults = [], trace = []\<rparr>"


section \<open>Auxiliary notions for the proofs\<close>

text \<open>What an operation leaves alone: the root key and the height of the trie.\<close>

definition frame :: "Trie \<Rightarrow> Trie \<Rightarrow> bool" where
  "frame t t' \<longleftrightarrow> rootKey t' = rootKey t \<and> height t' = height t"

text \<open>A spine entry is \<open>stored\<close> when the store holds its node under its key.\<close>

definition stored :: "Trie \<Rightarrow> storageNode \<Rightarrow> bool" where
  "stored t sn \<longleftrightarrow> contents (storage t) (key sn) = Some (node sn)"

fun linked :: "storageNode list \<Rightarrow> bool" where
  "linked (a # b # r) =
     ((left (node a) = Some (key b) \<or> right (node a) = Some (key b)) \<and> linked (b # r))"
| "linked _ = True"

text \<open>
  An operation that only reads: the root key and the contents of the store are as
  before, and the operations it issued to the store are all \<open>Get\<close>s.
\<close>

definition reads_only :: "Trie \<Rightarrow> Trie \<Rightarrow> bool" where
  "reads_only t t' \<longleftrightarrow>
     frame t t' \<and> contents (storage t') = contents (storage t) \<and>
     (\<exists>ks. trace (storage t') = trace (storage t) @ map OpGet ks)"

text \<open>What the descent loop guarantees when it returns.\<close>

definition nodesFromRoot_post ::
  "BitSet option \<Rightarrow> storageNode list \<Rightarrow> Trie \<Rightarrow> storageNode list result \<times> Trie \<Rightarrow> bool" where
  "nodesFromRoot_post cur acc t y \<longleftrightarrow>
     reads_only t (snd y) \<and>
     (\<forall>p. fst y = Panic p \<longrightarrow> p = ''index out of range'') \<and>
     (\<forall>ns. fst y = Ok ns \<longrightarrow>
        (\<exists>new. ns = acc @ new \<and> list_all (stored t) new \<and> linked new \<and>
           (case cur of None \<Rightarrow> new = [] | Some c \<Rightarrow> new \<noteq> [] \<and> key (hd new) = c)))"

text \<open>
  The same trie with another schedule of I/O faults: used to compare what two tries return
  under the same behaviour of the store.
\<close>

definition with_faults :: "bool list \<Rightarrow> Trie \<Rightarrow> Trie" where
  "with_faults fs t = t\<lparr>storage := (storage t)\<lparr>faults := fs\<rparr>\<rparr>"

text \<open>
  The invariant that \<open>propagateValues\<close> checks before each write: a node has both child
  keys or none.
\<close>

definition both_or_neither :: "Node \<Rightarrow> bool" where
  "both_or_neither n \<longleftrightarrow> (left n = None) = (right n = None)"

definition store_both_or_neither :: "Trie \<Rightarrow> bool" where
  "store_both_or_neither t \<longleftrightarrow>
     (\<forall>k n. contents (storage t) k = Some n \<longrightarrow> both_or_neither n)"

text \<open>
  The order of the operations a call issues to the store. \<open>reads_before_writes\<close>: once
  an operation that is not a read has been issued, no read follows.
\<close>

fun is_read :: "storage_op \<Rightarrow> bool" where
  "is_read (OpGet k) = True"
| "is_read (OpPut k n) = False"
| "is_read (OpDelete k) = False"

definition reads_before_writes :: "storage_op list \<Rightarrow> bool" where
  "reads_before_writes ops = list_all (\<lambda>op. \<not> is_read op) (dropWhile is_read ops)"

text \<open>
  \<open>children_read_before\<close> reads a trace backwards (latest operation first): the write of
  a node that has two children comes right after the read of its right child, which comes
  right after the read of its left child.
\<close>

fun children_read_before :: "storage_op list \<Rightarrow> bool" where
  "children_read_before (OpPut k n # earlier) =
     ((case left n of
         None \<Rightarrow> True
       | Some l \<Rightarrow>
          (case right n of
             None \<Rightarrow> True
           | Some r \<Rightarrow> take 2 earlier = [OpGet r, OpGet l])) \<and>
      children_read_before earlier)"
| "children_read_before (op # earlier) = children_read_before earlier"
| "children_read_before [] = True"

definition propagation_pattern :: "storage_op list \<Rightarrow> bool" where
  "propagation_pattern ops = children_read_before (rev ops)"

text \<open>
  A concrete stand-in for the hash functions, and a trie of height 3 holding the single
  leaf \<open>101 \<mapsto> 7\<close>, for checking statements on examples.
\<close>

definition demo_Hash :: "Node \<Rightarrow> BitSet \<Rightarrow> felt" where
  "demo_Hash n path = value n + length path"

definition demo_hashing :: hashing where
  "demo_hashing = \<lparr>Pedersen = (+), Hash = demo_Hash\<rparr>"

definition demo_trie :: Trie where
  "demo_trie = \<lparr>height = 3, rootKey = Some [True, False, True],
     storage = \<lparr>contents = [[True, False, True] \<mapsto> \<lparr>value = 7, left = None, right = None\<rparr>],
                faults = [], trace = []\<rparr>\<rparr>"

text \<open>How the trace of the store grows from one state of the trie to a later one.\<close>

definition trace_ext :: "Trie \<Rightarrow> Trie \<Rightarrow> storage_op list \<Rightarrow> bool" where
  "trace_ext t t' ws \<longleftrightarrow> trace (storage t') = trace (storage t) @ ws"

definition mutation :: "Trie \<Rightarrow> Trie \<Rightarrow> bool" where
  "mutation t t' \<longleftrightarrow> (\<exists>ws. trace_ext t t' ws \<and> propagation_pattern ws)"

definition mutation1 :: "Trie \<Rightarrow> Trie \<Rightarrow> bool" where
  "mutation1 t t' \<longleftrightarrow>
     (\<exists>ws. trace_ext t t' ws \<and> propagation_pattern ws \<and> ws \<noteq> [] \<and> \<not> is_read (hd ws))"

section \<open>Facts about the bit-path arithmetic\<close>

lemma wrap_sub: "b \<le> a \<Longrightarrow> a < (M::nat) \<Longrightarrow> (a + M - b) mod M = a - b"
proof -
  assume le: "b \<le> a" and lt: "a < M"
  have "a + M - b = (a - b) + M"
    using le by simp
  moreover have "((a - b) + M) mod M = a - b"
    using lt by simp
  ultimately show ?thesis
    by (simp only:)
qed

lemma usub_le: "b \<le> a \<Longrightarrow> a < 2 ^ 64 \<Longrightarrow> usub a b = a - b"
  unfolding usub_def by (rule wrap_sub)

lemma usub_Suc_wrap: "uadd (usub a (Suc a)) 1 = 0"
proof -
  have "a + 2 ^ 64 - Suc a = (2 ^ 64 - 1 :: nat)"
    by simp
  then have "usub a (Suc a) = 2 ^ 64 - 1"
    unfolding usub_def by (simp only: mod_less [of "2 ^ 64 - 1 :: nat" "2 ^ 64"]) simp
  then show ?thesis
    unfolding uadd_def by (simp only:) simp
qed

lemma usub_0: "a < 2 ^ 64 \<Longrightarrow> usub a 0 = a"
  by (simp add: usub_def)

lemma uadd_small: "a + b < 2 ^ 64 \<Longrightarrow> uadd a b = a + b"
  by (simp add: uadd_def)

lemma Test_msb: "d < length b \<Longrightarrow> Test b (length b - Suc d) = b ! d"
proof -
  assume "d < length b"
  then have "length b - Suc d < length b" and "length b - 1 - (length b - Suc d) = d"
    by arith+
  then show ?thesis
    by (simp add: Test_def)
qed

lemma Test_Len: "Test b (length b) = False"
  by (simp add: Test_def)

lemma divergentBit_loop_Suc:
  assumes "length s \<le> length l" and "length l < 2 ^ 64" and "d \<le> length s"
  shows "divergentBit_loop l s (Suc d) =
         Suc (d + length (longest_common_prefix (drop d l) (drop d s)))"
  using assms
proof (induction "length s - d" arbitrary: d)
  case 0
  then have "d = length s" by simp
  then show ?case
    by (subst divergentBit_loop.simps) (simp add: Len_def)
next
  case (Suc n)
  then have d: "d < length s" "d < length l" by simp_all
  have tl: "Test l (usub (Len l) (Suc d)) = l ! d"
    using d Suc.prems by (simp add: Len_def usub_le Test_msb)
  have ts: "Test s (usub (Len s) (Suc d)) = s ! d"
    using d Suc.prems by (simp add: Len_def usub_le Test_msb)
  have dl: "drop d l = l ! d # drop (Suc d) l" and ds: "drop d s = s ! d # drop (Suc d) s"
    using d by (simp_all add: Cons_nth_drop_Suc)
  show ?case
  proof (cases "l ! d = s ! d")
    case True
    have "divergentBit_loop l s (Suc d) = divergentBit_loop l s (Suc (Suc d))"
      using d True tl ts by (subst divergentBit_loop.simps) (simp add: Len_def)
    also have "\<dots> = Suc (Suc d + length (longest_common_prefix (drop (Suc d) l) (drop (Suc d) s)))"
      using Suc.hyps(2) Suc.prems d by (intro Suc.hyps(1)) simp_all
    finally show ?thesis using True by (simp add: dl ds)
  next
    case False
    then show ?thesis
      using tl ts by (subst divergentBit_loop.simps) (simp add: dl ds)
  qed
qed

lemma divergentBit_loop_0:
  assumes "length s \<le> length l" and "length l < 2 ^ 64"
  shows "divergentBit_loop l s 0 = Suc (length (longest_common_prefix l s))"
proof -
  have "divergentBit_loop l s 0 = divergentBit_loop l s (Suc 0)"
    using assms by (subst divergentBit_loop.simps) (simp add: Len_def usub_0 Test_Len)
  then show ?thesis
    using divergentBit_loop_Suc [OF assms, of 0] by simp
qed

lemma DeleteAt0_times_take:
  "n \<le> length b \<Longrightarrow> DeleteAt0_times n b = Some (take (length b - n) b)"
proof (induction n arbitrary: b)
  case 0
  then show ?case by simp
next
  case (Suc n)
  then have "b \<noteq> []" by auto
  then have "DeleteAt b 0 = Some (take (length b - 1) b)"
    by (simp add: DeleteAt_def)
  moreover have "min (length b) (length b - 1) = length b - 1"
    by simp
  ultimately show ?case
    using Suc by simp
qed

lemma length_lcp_le2: "length (longest_common_prefix xs ys) \<le> length ys"
  using longest_common_prefix_prefix2 [of xs ys] by (rule prefix_length_le)

lemma prefix_take_eq: "prefix p xs \<Longrightarrow> take (length p) xs = p"
  by (auto simp: prefix_def)

lemma prefix_nth_eq: "prefix p xs \<Longrightarrow> i < length p \<Longrightarrow> xs ! i = p ! i"
  by (auto simp: prefix_def nth_append)

lemma lcp_take2: "take (length (longest_common_prefix xs ys)) ys = longest_common_prefix xs ys"
  using longest_common_prefix_prefix2 [of xs ys] by (rule prefix_take_eq)

lemma lcp_full_iff: "length (longest_common_prefix xs ys) = length ys \<longleftrightarrow> prefix ys xs"
proof
  assume "length (longest_common_prefix xs ys) = length ys"
  then have "longest_common_prefix xs ys = ys"
    using lcp_take2 [of xs ys] by simp
  then show "prefix ys xs"
    using longest_common_prefix_prefix1 [of xs ys] by simp
next
  assume "prefix ys xs"
  then have "prefix ys (longest_common_prefix xs ys)"
    by (intro longest_common_prefix_max_prefix) simp_all
  then show "length (longest_common_prefix xs ys) = length ys"
    using length_lcp_le2 [of xs ys] prefix_length_le by fastforce
qed

lemma FindCommonKey_lcp:
  assumes "length shorterKey \<le> length longerKey" and "length longerKey < 2 ^ 64 - 1"
  shows "FindCommonKey longerKey shorterKey =
         Some (longest_common_prefix longerKey shorterKey, prefix shorterKey longerKey)"
proof -
  define c where "c = length (longest_common_prefix longerKey shorterKey)"
  have l64: "length longerKey < 2 ^ 64" using assms(2) by simp
  have d: "divergentBit_loop longerKey shorterKey 0 = Suc c"
    unfolding c_def using assms(1) l64 by (rule divergentBit_loop_0)
  have c: "c \<le> length shorterKey"
    unfolding c_def by (rule length_lcp_le2)
  have s64: "length shorterKey + 1 < 2 ^ 64" using assms by simp
  have n: "uadd (usub (Len shorterKey) (Suc c)) 1 = length shorterKey - c"
  proof (cases "c = length shorterKey")
    case True
    have "uadd (usub (length shorterKey) (Suc (length shorterKey))) 1 = 0"
      by (rule usub_Suc_wrap)
    then show ?thesis
      unfolding True Len_def by simp
  next
    case False
    then have sc: "Suc c \<le> length shorterKey" using c by simp
    have "usub (length shorterKey) (Suc c) = length shorterKey - Suc c"
      using sc s64 by (intro usub_le) simp_all
    moreover have "uadd (length shorterKey - Suc c) 1 = length shorterKey - c"
      using sc s64 by (simp add: uadd_small)
    ultimately show ?thesis
      by (simp only: Len_def)
  qed
  have k: "DeleteAt0_times (length shorterKey - c) shorterKey =
           Some (longest_common_prefix longerKey shorterKey)"
    using c by (simp add: DeleteAt0_times_take c_def lcp_take2)
  have f: "(Suc c = uadd (Len shorterKey) 1) = prefix shorterKey longerKey"
    unfolding Len_def using s64 by (auto simp: uadd_small c_def lcp_full_iff)
  show ?thesis
    unfolding FindCommonKey_def Let_def d n k f by simp
qed

lemma Path_Some:
  assumes "length pk < length k" and "length k < 2 ^ 64"
  shows "Path k (Some pk) = Some (drop (Suc (length pk)) k)"
proof -
  have "usub (length k) (length pk) = length k - length pk"
    using assms by (intro usub_le) simp_all
  moreover have "usub (length k - length pk) 1 = length k - length pk - 1"
    using assms by (intro usub_le) simp_all
  ultimately have u: "usub (usub (Len k) (Len pk)) 1 = length k - length pk - 1"
    by (simp only: Len_def)
  have a: "uadd (length k - length pk - 1) 1 = length k - length pk"
    using assms by (simp add: uadd_small)
  have s: "Shrink k (length k - length pk - 1) = drop (length pk) k"
    unfolding Shrink_def a Let_def using assms by simp
  have "usub (length k - length pk) 1 = length k - length pk - 1"
    using assms by (intro usub_le) simp_all
  then have l: "usub (Len (drop (length pk) k)) 1 = length k - length pk - 1"
    by (simp only: Len_def length_drop)
  have d: "DeleteAt (drop (length pk) k) (length k - length pk - 1) =
           Some (drop (Suc (length pk)) k)"
    using assms by (simp add: DeleteAt_def)
  have "Path k (Some pk) =
        DeleteAt (Shrink k (usub (usub (Len k) (Len pk)) 1))
          (usub (Len (Shrink k (usub (usub (Len k) (Len pk)) 1))) 1)"
    by (simp add: Path_def Let_def)
  also have "\<dots> = Some (drop (Suc (length pk)) k)"
    by (simp only: u s l d)
  finally show ?thesis .
qed

section \<open>Claims about the bit-path arithmetic\<close>

text \<open>
  Claim C5. For two bit-paths with \<open>len(longerKey) \<ge> len(shorterKey)\<close> (lengths being
  \<open>uint\<close> values whose successor does not wrap), \<open>FindCommonKey\<close> returns the longest
  common prefix of the two paths, read from the most significant bit: it is a prefix of
  both, every common prefix is a prefix of it, and its length is the number of matching
  leading bits. The flag is true exactly when the shorter path is a prefix of the longer
  one. For equal inputs the result is the shorter path and \<open>true\<close>.
\<close>

theorem C5_FindCommonKey:
  assumes "Len shorterKey \<le> Len longerKey" and "Len longerKey < 2 ^ 64 - 1"
  shows "\<exists>commonKey. FindCommonKey longerKey shorterKey =
            Some (commonKey, prefix shorterKey longerKey) \<and>
          prefix commonKey longerKey \<and> prefix commonKey shorterKey \<and>
          (\<forall>p. prefix p longerKey \<and> prefix p shorterKey \<longrightarrow> prefix p commonKey) \<and>
          (\<forall>i < Len commonKey. longerKey ! i = shorterKey ! i) \<and>
          (Len commonKey < Len shorterKey \<longrightarrow>
             longerKey ! Len commonKey \<noteq> shorterKey ! Len commonKey) \<and>
          (longerKey = shorterKey \<longrightarrow>
             FindCommonKey longerKey shorterKey = Some (shorterKey, True))"
proof -
  let ?c = "longest_common_prefix longerKey shorterKey"
  have fck: "FindCommonKey longerKey shorterKey = Some (?c, prefix shorterKey longerKey)"
    using assms by (simp add: FindCommonKey_lcp Len_def)
  have p1: "prefix ?c longerKey" by (rule longest_common_prefix_prefix1)
  have p2: "prefix ?c shorterKey" by (rule longest_common_prefix_prefix2)
  have mx: "\<forall>p. prefix p longerKey \<and> prefix p shorterKey \<longrightarrow> prefix p ?c"
    by (simp add: longest_common_prefix_max_prefix)
  have ag: "\<forall>i < Len ?c. longerKey ! i = shorterKey ! i"
    using prefix_nth_eq [OF p1] prefix_nth_eq [OF p2] by (simp add: Len_def)
  have dv: "Len ?c < Len shorterKey \<longrightarrow> longerKey ! Len ?c \<noteq> shorterKey ! Len ?c"
  proof
    assume lt: "Len ?c < Len shorterKey"
    show "longerKey ! Len ?c \<noteq> shorterKey ! Len ?c"
    proof
      assume eq: "longerKey ! Len ?c = shorterKey ! Len ?c"
      have ls: "length ?c < length shorterKey" and ll: "length ?c < length longerKey"
        using lt assms(1) by (simp_all add: Len_def)
      have t1: "take (Suc (length ?c)) longerKey = ?c @ [longerKey ! length ?c]"
        using ll by (simp add: take_Suc_conv_app_nth prefix_take_eq [OF p1])
      have t2: "take (Suc (length ?c)) shorterKey = ?c @ [shorterKey ! length ?c]"
        using ls by (simp add: take_Suc_conv_app_nth prefix_take_eq [OF p2])
      have e: "longerKey ! length ?c = shorterKey ! length ?c"
        using eq by (simp add: Len_def)
      have "prefix (?c @ [shorterKey ! length ?c]) ?c"
      proof (rule longest_common_prefix_max_prefix)
        have "prefix (take (Suc (length ?c)) longerKey) longerKey"
          by (rule take_is_prefix)
        then show "prefix (?c @ [shorterKey ! length ?c]) longerKey"
          unfolding t1 e .
        have "prefix (take (Suc (length ?c)) shorterKey) shorterKey"
          by (rule take_is_prefix)
        then show "prefix (?c @ [shorterKey ! length ?c]) shorterKey"
          unfolding t2 .
      qed
      then have "length (?c @ [shorterKey ! length ?c]) \<le> length ?c"
        by (rule prefix_length_le)
      then show False
        by simp
    qed
  qed
  have eq: "longerKey = shorterKey \<longrightarrow> FindCommonKey longerKey shorterKey = Some (shorterKey, True)"
  proof
    assume e: "longerKey = shorterKey"
    then have "prefix shorterKey ?c"
      by (intro longest_common_prefix_max_prefix) simp_all
    then have "?c = shorterKey"
      using p2 by (simp add: prefix_order.antisym)
    then show "FindCommonKey longerKey shorterKey = Some (shorterKey, True)"
      using fck e by simp
  qed
  show ?thesis
    using fck p1 p2 mx ag dv eq by blast
qed

theorem C5_FindCommonKey_witness:
  "Len [True, False] \<le> Len [True, False, True] \<and> Len [True, False, True] < 2 ^ 64 - 1 \<and>
   FindCommonKey [True, False, True] [True, False] = Some ([True, False], True) \<and>
   prefix [True, False] [True, False, True]"
proof -
  have h1: "Len [True, False] \<le> Len [True, False, True]" by (simp add: Len_def)
  have h2: "Len [True, False, True] < 2 ^ 64 - 1" by (simp add: Len_def)
  from C5_FindCommonKey [OF h1 h2] obtain c where
    c: "FindCommonKey [True, False, True] [True, False] =
          Some (c, prefix [True, False] [True, False, True])"
      "prefix c [True, False]"
      "\<forall>p. prefix p [True, False, True] \<and> prefix p [True, False] \<longrightarrow> prefix p c"
    by blast
  have "prefix [True, False] c" using c(3) by simp
  then have c1: "c = [True, False]" using c(2) by (simp add: prefix_order.antisym)
  show ?thesis
    using h1 h2 c(1) c1 by simp
qed

text \<open>
  Claim C6. For a key of bit-length \<open>l\<close> and a parent key of bit-length \<open>p < l\<close>,
  \<open>Path(key, parentKey)\<close> returns the bits of the key at the positions \<open>p + 1 .. l - 1\<close>
  counted from the most significant bit, a path of length \<open>l - p - 1\<close>; and
  \<open>Path(key, nil)\<close> returns the whole key.
\<close>

theorem C6_Path:
  assumes "Len parentKey < Len k" and "Len k < 2 ^ 64"
  shows "\<exists>path. Path k (Some parentKey) = Some path \<and>
           Len path = Len k - Len parentKey - 1 \<and>
           (\<forall>i < Len path. path ! i = k ! (Len parentKey + 1 + i)) \<and>
           Path k None = Some k"
proof -
  have "Path k (Some parentKey) = Some (drop (Suc (Len parentKey)) k)"
    using assms by (simp add: Len_def Path_Some)
  moreover have "Len (drop (Suc (Len parentKey)) k) = Len k - Len parentKey - 1"
    by (simp add: Len_def)
  moreover have "\<forall>i < Len (drop (Suc (Len parentKey)) k).
      drop (Suc (Len parentKey)) k ! i = k ! (Len parentKey + 1 + i)"
    using assms by (simp add: Len_def)
  moreover have "Path k None = Some k"
    by (simp add: Path_def)
  ultimately show ?thesis by blast
qed

theorem C6_Path_witness:
  "Len [True, False] < Len [True, False, True, True] \<and> Len [True, False, True, True] < 2 ^ 64 \<and>
   Path [True, False, True, True] (Some [True, False]) = Some [True] \<and>
   Path [True, False, True, True] None = Some [True, False, True, True]"
proof -
  have h1: "Len [True, False] < Len [True, False, True, True]" by (simp add: Len_def)
  have h2: "Len [True, False, True, True] < 2 ^ 64" by (simp add: Len_def)
  from C6_Path [OF h1 h2] obtain path where
    p: "Path [True, False, True, True] (Some [True, False]) = Some path"
      "Len path = Len [True, False, True, True] - Len [True, False] - 1"
      "\<forall>i < Len path. path ! i = [True, False, True, True] ! (Len [True, False] + 1 + i)"
      "Path [True, False, True, True] None = Some [True, False, True, True]"
    by blast
  have l: "length path = 1" using p(2) by (simp add: Len_def)
  have "path ! 0 = [True, False, True, True] ! (Len [True, False] + 1 + 0)"
    using p(3) l by (simp add: Len_def)
  then have "path ! 0 = True" by (simp add: Len_def)
  then have "path = [True]"
    using l by (cases path) simp_all
  then show ?thesis
    using h1 h2 p(1) p(4) by simp
qed

section \<open>Frame properties of the operations\<close>

lemma on_ok_simps [simp]:
  "on_ok (Ok a, s) f = f a s"
  "on_ok (Err e, s) f = (Err e, s)"
  "on_ok (Panic p, s) f = (Panic p, s)"
  by (simp_all add: on_ok_def)

lemma on_ok_eq:
  "on_ok m f = (r, s') \<longleftrightarrow>
     (\<exists>a s. m = (Ok a, s) \<and> f a s = (r, s')) \<or>
     (\<exists>e. m = (Err e, s') \<and> r = Err e) \<or>
     (\<exists>p. m = (Panic p, s') \<and> r = Panic p)"
  by (cases m; cases "fst m") (auto simp: on_ok_def)

lemma frame_refl [simp]: "frame t t"
  by (simp add: frame_def)

lemma frame_trans: "frame t t1 \<Longrightarrow> frame t1 t2 \<Longrightarrow> frame t t2"
  by (simp add: frame_def)

lemma storage_Get_frame: "storage_Get t k = (r, t') \<Longrightarrow> frame t t'"
  by (auto simp: storage_Get_def frame_def split: prod.splits)

lemma storage_Put_frame: "storage_Put t k n = (r, t') \<Longrightarrow> frame t t'"
  by (auto simp: storage_Put_def frame_def split: prod.splits)

lemma storage_Delete_frame: "storage_Delete t k = (r, t') \<Longrightarrow> frame t t'"
  by (auto simp: storage_Delete_def frame_def split: prod.splits)

lemma propagateValues_step_frame:
  assumes "propagateValues_step hs cur t = (r, t')"
  shows "frame t t'"
  using assms unfolding propagateValues_step_def on_ok_def
  by (auto split: if_splits option.splits prod.splits result.splits
      dest!: storage_Get_frame storage_Put_frame intro: frame_trans)

lemma propagateValues_frame:
  "propagateValues hs t ns = (r, t') \<Longrightarrow> frame t t'"
proof (induction ns arbitrary: r t')
  case Nil
  then show ?case by simp
next
  case (Cons cur deeper)
  then show ?case
    by (auto simp: on_ok_eq dest: propagateValues_step_frame intro: frame_trans)
qed

lemma deleteLast_Err_rootKey:
  assumes "deleteLast hs t ns = (Err e, t')"
  shows "rootKey t' = rootKey t"
  using assms unfolding deleteLast_def Let_def on_ok_def
  by (auto simp: frame_def split: if_splits option.splits prod.splits result.splits
      dest!: storage_Get_frame storage_Delete_frame propagateValues_frame)

lemma reads_only_refl [simp]: "reads_only t t"
  by (auto simp: reads_only_def intro: exI [of _ "[]"])

lemma reads_only_trans: "reads_only t t1 \<Longrightarrow> reads_only t1 t2 \<Longrightarrow> reads_only t t2"
  unfolding reads_only_def
proof (intro conjI)
  assume a: "frame t t1 \<and> contents (storage t1) = contents (storage t) \<and>
      (\<exists>ks. trace (storage t1) = trace (storage t) @ map OpGet ks)"
    and b: "frame t1 t2 \<and> contents (storage t2) = contents (storage t1) \<and>
      (\<exists>ks. trace (storage t2) = trace (storage t1) @ map OpGet ks)"
  show "frame t t2" using a b by (auto intro: frame_trans)
  show "contents (storage t2) = contents (storage t)" using a b by simp
  from a obtain ks where ks: "trace (storage t1) = trace (storage t) @ map OpGet ks" by blast
  from b obtain ks' where ks': "trace (storage t2) = trace (storage t1) @ map OpGet ks'" by blast
  have "trace (storage t2) = trace (storage t) @ map OpGet (ks @ ks')"
    by (simp add: ks ks')
  then show "\<exists>ks. trace (storage t2) = trace (storage t) @ map OpGet ks" ..
qed

lemma storage_Get_reads:
  assumes "storage_Get t k = (r, t')"
  shows "reads_only t t'" and "\<And>n. r = Ok n \<Longrightarrow> contents (storage t) k = Some n"
    and "r \<noteq> Panic p"
proof -
  have "trace (storage t') = trace (storage t) @ map OpGet [k]"
    using assms by (auto simp: storage_Get_def Storage_Get_def tick_def split: if_splits option.splits)
  then have "\<exists>ks. trace (storage t') = trace (storage t) @ map OpGet ks" ..
  moreover have "contents (storage t') = contents (storage t)"
    using assms by (auto simp: storage_Get_def Storage_Get_def tick_def split: if_splits option.splits)
  ultimately show "reads_only t t'"
    using storage_Get_frame [OF assms] by (simp add: reads_only_def)
  show "\<And>n. r = Ok n \<Longrightarrow> contents (storage t) k = Some n"
    using assms by (auto simp: storage_Get_def Storage_Get_def split: if_splits option.splits)
  show "r \<noteq> Panic p"
    using assms by (auto simp: storage_Get_def Storage_Get_def split: if_splits option.splits)
qed

lemma stored_reads_only: "reads_only t t' \<Longrightarrow> stored t' sn = stored t sn"
  by (simp add: reads_only_def stored_def)

lemma nodesFromRoot_loop_sound:
  assumes "nodesFromRoot_loop k0 cur0 acc0 t0 = Some y0"
  shows "nodesFromRoot_post cur0 acc0 t0 y0"
proof (rule nodesFromRoot_loop.raw_induct
    [where P = "\<lambda>k cur acc t y. nodesFromRoot_post cur acc t y", OF _ assms])
  fix f k cur acc t y
  assume 1: "\<And>k cur acc t y. f k cur acc t = Some y \<Longrightarrow> nodesFromRoot_post cur acc t y"
    "(case cur of
        None \<Rightarrow> Some (Ok acc, t)
      | Some c \<Rightarrow>
          (case storage_Get t c of
             (Ok n, t') \<Rightarrow>
               (let nodes' = acc @ [\<lparr>key = c, node = n\<rparr>]
                in case FindCommonKey k c of
                     None \<Rightarrow> Some (Panic ''index out of range'', t')
                   | Some (commonKey, isSubset) \<Rightarrow>
                       if Len c \<ge> Len k \<or> \<not> isSubset then Some (Ok nodes', t')
                       else f k
                              (if Test k (usub (usub (Len k) (Len c)) 1) then right n else left n)
                              nodes' t')
           | (Err e, t') \<Rightarrow> Some (Err e, t')
           | (Panic p, t') \<Rightarrow> Some (Panic p, t'))) = Some y"
  show "nodesFromRoot_post cur acc t y"
  proof (cases cur)
    case None
    then show ?thesis using 1(2) by (auto simp: nodesFromRoot_post_def)
  next
    case (Some c)
    obtain r t1 where g: "storage_Get t c = (r, t1)" by (cases "storage_Get t c")
    note ro = storage_Get_reads(1) [OF g]
    show ?thesis
    proof (cases r)
      case (Err e)
      then show ?thesis using 1(2) Some g ro by (auto simp: nodesFromRoot_post_def)
    next
      case (Panic p)
      then show ?thesis using storage_Get_reads(3) [OF g] by simp
    next
      case (Ok n)
      have st: "stored t \<lparr>key = c, node = n\<rparr>"
        using storage_Get_reads(2) [OF g Ok] by (simp add: stored_def)
      show ?thesis
      proof (cases "FindCommonKey k c")
        case None
        then show ?thesis using 1(2) Some g ro Ok by (auto simp: nodesFromRoot_post_def)
      next
        case fck: (Some cs)
        obtain ck sub where cs: "cs = (ck, sub)" by (cases cs)
        show ?thesis
        proof (cases "Len k \<le> Len c \<or> \<not> sub")
          case True
          then have "y = (Ok (acc @ [\<lparr>key = c, node = n\<rparr>]), t1)"
            using 1(2) Some g Ok fck cs by (auto simp: Let_def)
          then show ?thesis
            using ro st Some by (auto simp: nodesFromRoot_post_def)
        next
          case False
          let ?cur' = "if Test k (usub (usub (Len k) (Len c)) 1) then right n else left n"
          have "f k ?cur' (acc @ [\<lparr>key = c, node = n\<rparr>]) t1 = Some y"
            using 1(2) Some g Ok fck cs False by (auto simp: Let_def)
          then have ih: "nodesFromRoot_post ?cur' (acc @ [\<lparr>key = c, node = n\<rparr>]) t1 y"
            by (rule 1(1))
          have "reads_only t (snd y)"
            using ih ro by (auto simp: nodesFromRoot_post_def intro: reads_only_trans)
          moreover have "\<forall>p. fst y = Panic p \<longrightarrow> p = ''index out of range''"
            using ih by (simp add: nodesFromRoot_post_def)
          moreover have "\<exists>new. ns = acc @ new \<and> list_all (stored t) new \<and> linked new \<and>
                new \<noteq> [] \<and> key (hd new) = c" if "fst y = Ok ns" for ns
          proof -
            from ih that obtain new where new: "ns = (acc @ [\<lparr>key = c, node = n\<rparr>]) @ new"
              "list_all (stored t1) new" "linked new"
              "case ?cur' of None \<Rightarrow> new = [] | Some c' \<Rightarrow> new \<noteq> [] \<and> key (hd new) = c'"
              by (auto simp: nodesFromRoot_post_def)
            have "linked (\<lparr>key = c, node = n\<rparr> # new)"
              using new(3,4) by (cases new) (auto split: if_splits option.splits)
            moreover have "list_all (stored t) (\<lparr>key = c, node = n\<rparr> # new)"
              using new(2) st stored_reads_only [OF ro] by (simp add: list_all_iff)
            ultimately show ?thesis
              using new(1) by (intro exI [of _ "\<lparr>key = c, node = n\<rparr> # new"]) simp
          qed
          ultimately show ?thesis
            using Some by (auto simp: nodesFromRoot_post_def)
        qed
      qed
    qed
  qed
qed

lemma nodesFromRoot_reads:
  assumes "nodesFromRoot t k = Some (r, t')"
  shows "reads_only t t'"
  using nodesFromRoot_loop_sound [of k "rootKey t" "[]" t "(r, t')"] assms
  by (simp add: nodesFromRoot_def nodesFromRoot_post_def)

lemma Put_found_Err_rootKey:
  assumes "Put_found hs t nd nodes = (Err e, t')"
  shows "rootKey t' = rootKey t"
  using assms unfolding Put_found_def Let_def
  by (auto simp: frame_def split: if_splits dest: deleteLast_Err_rootKey propagateValues_frame)

lemma Put_new_Err_rootKey:
  assumes "Put_new hs t nodeKey nd nodes = (Err e, t')"
  shows "rootKey t' = rootKey t"
  using assms unfolding Put_new_def Let_def on_ok_def
  by (auto simp: frame_def split: if_splits option.splits prod.splits result.splits
      dest: propagateValues_frame)

text \<open>
  Claim C9. Whenever \<open>Put\<close> returns an error, whether it comes from a read of the
  descent, from a read or the write of the propagation, or from a delete or the read of
  the sibling in \<open>deleteLast\<close>, the \<open>rootKey\<close> field of the trie is the one it had
  when \<open>Put\<close> was entered.
\<close>

theorem C9_Put_error_keeps_rootKey:
  assumes "Put hs t k v = Some (Err e, t')"
  shows "rootKey t' = rootKey t"
proof (cases "rootKey t")
  case None
  then show ?thesis
    using assms unfolding Put_def Let_def on_ok_def
    by (auto simp: frame_def split: if_splits prod.splits result.splits
        dest: propagateValues_step_frame)
next
  case (Some rk)
  then obtain r t1 where n: "nodesFromRoot t (FeltToBitSet t k) = Some (r, t1)"
    using assms unfolding Put_def Let_def by (auto split: option.splits)
  have f: "rootKey t1 = rootKey t"
    using nodesFromRoot_reads [OF n] by (simp add: reads_only_def frame_def)
  show ?thesis
    using assms Some n f unfolding Put_def Let_def
    by (auto split: if_splits result.splits dest: Put_found_Err_rootKey Put_new_Err_rootKey)
qed

lemma Test_branch:
  assumes "length c < length k" and "length k < 2 ^ 64"
  shows "Test k (usub (usub (Len k) (Len c)) 1) = k ! length c"
proof -
  have "usub (length k) (length c) = length k - length c"
    using assms by (intro usub_le) simp_all
  moreover have "usub (length k - length c) 1 = length k - length c - 1"
    using assms by (intro usub_le) simp_all
  ultimately have "usub (usub (Len k) (Len c)) 1 = length k - Suc (length c)"
    by (simp only: Len_def diff_diff_left plus_1_eq_Suc add.commute [of _ 1])
  then show ?thesis
    using Test_msb [OF assms(1)] by (simp only:)
qed

theorem C9_witness:
  "\<exists>t'. Put \<lparr>Pedersen = (\<lambda>a b. a + b), Hash = (\<lambda>n p. value n)\<rparr>
          \<lparr>height = 3, rootKey = Some [True, False],
           storage = \<lparr>contents =
               [[True, False] \<mapsto> \<lparr>value = 16, left = Some [True, False, False],
                                   right = Some [True, False, True]\<rparr>,
                [True, False, False] \<mapsto> \<lparr>value = 9, left = None, right = None\<rparr>,
                [True, False, True] \<mapsto> \<lparr>value = 7, left = None, right = None\<rparr>],
              faults = [False, False, False, True], trace = []\<rparr>\<rparr> 4 0
        = Some (Err ErrStoreIO, t') \<and>
      rootKey t' = Some [True, False] \<and>
      contents (storage t') [True, False, False] = None"
proof -
  let ?hs = "\<lparr>Pedersen = (\<lambda>a b. a + b), Hash = (\<lambda>n p. value n)\<rparr>"
  let ?t = "\<lparr>height = 3, rootKey = Some [True, False],
           storage = \<lparr>contents =
               [[True, False] \<mapsto> \<lparr>value = 16, left = Some [True, False, False],
                                   right = Some [True, False, True]\<rparr>,
                [True, False, False] \<mapsto> \<lparr>value = 9, left = None, right = None\<rparr>,
                [True, False, True] \<mapsto> \<lparr>value = 7, left = None, right = None\<rparr>],
              faults = [False, False, False, True], trace = []\<rparr>\<rparr>"
  have "case Put ?hs ?t 4 0 of
          Some (Err e, t') \<Rightarrow> e = ErrStoreIO \<and> contents (storage t') [True, False, False] = None
        | _ \<Rightarrow> False"
    by (simp add: Put_def Let_def FeltToBitSet_def upt_rec bit_0 nodesFromRoot_def
        nodesFromRoot_loop.simps storage_Get_def Storage_Get_def fails_def tick_def
        FindCommonKey_lcp Len_def Test_def usub_le Put_found_def deleteLast_def
        storage_Delete_def Storage_Delete_def)
  then obtain t' where p: "Put ?hs ?t 4 0 = Some (Err ErrStoreIO, t')"
    and c: "contents (storage t') [True, False, False] = None"
    by (auto split: option.splits prod.splits result.splits)
  have "rootKey t' = rootKey ?t"
    using p by (rule C9_Put_error_keeps_rootKey)
  then show ?thesis
    using p c by simp
qed

section \<open>Insert followed by delete on an empty trie\<close>

lemma length_FeltToBitSet [simp]: "length (FeltToBitSet t k) = height t"
  by (simp add: FeltToBitSet_def)

lemma lcp_same [simp]: "longest_common_prefix xs xs = xs"
  by (induction xs) simp_all






section \<open>Writing zero to an absent key\<close>

lemma Root_depends:
  assumes "rootKey t' = rootKey t" and "contents (storage t') = contents (storage t)"
  shows "fst (Root hs (with_faults fs t')) = fst (Root hs (with_faults fs t))"
  using assms
  by (cases "rootKey t")
     (auto simp: Root_def with_faults_def storage_Get_def Storage_Get_def fails_def Path_def
        split: list.splits option.splits)

lemma nodesFromRoot_Ok:
  assumes "nodesFromRoot t k = Some (Ok nodes, t')" and "rootKey t \<noteq> None"
  shows "nodes \<noteq> []" and "list_all (stored t) nodes" and "linked nodes"
    and "rootKey t = Some (key (hd nodes))"
  using nodesFromRoot_loop_sound [of k "rootKey t" "[]" t "(Ok nodes, t')"] assms
  by (auto simp: nodesFromRoot_def nodesFromRoot_post_def)

lemma Put_zero_absent:
  assumes "contents (storage t) (FeltToBitSet t k) = None" and "rootKey t \<noteq> None"
    and "Put hs t k 0 = Some (r, t')"
  shows "reads_only t t'"
proof -
  let ?nk = "FeltToBitSet t k"
  obtain r1 t1 where n: "nodesFromRoot t ?nk = Some (r1, t1)"
    using assms(2,3) unfolding Put_def Let_def by (auto split: option.splits)
  have ro: "reads_only t t1"
    using n by (rule nodesFromRoot_reads)
  show ?thesis
  proof (cases r1)
    case (Ok nodes)
    have ne: "nodes \<noteq> []" and st: "list_all (stored t) nodes"
      using nodesFromRoot_Ok [OF n [unfolded Ok] assms(2)] by simp_all
    have "last nodes \<in> set nodes" using ne by simp
    then have "stored t (last nodes)"
      using st by (simp add: list_all_iff)
    then have "key (last nodes) \<noteq> ?nk"
      using assms(1) by (auto simp: stored_def)
    then have "Put hs t k 0 = Some (Ok (), t1)"
      using assms(2) n Ok ne unfolding Put_def Let_def by auto
    then show ?thesis using assms(3) ro by simp
  next
    case (Err e)
    then have "Put hs t k 0 = Some (Err e, t1)"
      using assms(2) n unfolding Put_def Let_def by auto
    then show ?thesis using assms(3) ro by simp
  next
    case (Panic p)
    then have "Put hs t k 0 = Some (Panic p, t1)"
      using assms(2) n unfolding Put_def Let_def by auto
    then show ?thesis using assms(3) ro by simp
  qed
qed

text \<open>
  Claim C7. \<open>Put(k, 0)\<close> on an empty trie returns at once and changes nothing. On a
  non-empty trie whose store holds no node under the key of \<open>k\<close>, a \<open>Put(k, 0)\<close> that
  returns has issued only reads to the store: no write and no delete, the contents of the
  store and \<open>rootKey\<close> are unchanged, and \<open>Root()\<close> returns what it returned before
  (whatever the store's I/O faults are going to be, as long as they are the same for both
  calls of \<open>Root()\<close>).
\<close>

theorem C7_Put_zero_noop:
  shows "(rootKey t = None \<longrightarrow> Put hs t k 0 = Some (Ok (), t)) \<and>
         (rootKey t \<noteq> None \<and> contents (storage t) (FeltToBitSet t k) = None \<and>
          Put hs t k 0 = Some (r, t') \<longrightarrow>
            rootKey t' = rootKey t \<and> contents (storage t') = contents (storage t) \<and>
            (\<exists>ks. trace (storage t') = trace (storage t) @ map OpGet ks) \<and>
            (\<forall>fs. fst (Root hs (with_faults fs t')) = fst (Root hs (with_faults fs t))))"
proof (intro conjI impI)
  assume "rootKey t = None"
  then show "Put hs t k 0 = Some (Ok (), t)"
    by (simp add: Put_def)
next
  assume a: "rootKey t \<noteq> None \<and> contents (storage t) (FeltToBitSet t k) = None \<and>
          Put hs t k 0 = Some (r, t')"
  have ro: "reads_only t t'"
    by (rule Put_zero_absent [of t k hs r t']) (simp_all add: a)
  show rk: "rootKey t' = rootKey t"
    using ro by (simp add: reads_only_def frame_def)
  show co: "contents (storage t') = contents (storage t)"
    using ro by (simp add: reads_only_def)
  show "\<exists>ks. trace (storage t') = trace (storage t) @ map OpGet ks"
    using ro by (simp add: reads_only_def)
  show "\<forall>fs. fst (Root hs (with_faults fs t')) = fst (Root hs (with_faults fs t))"
    using Root_depends [OF rk co] by blast
qed

theorem C7_witness:
  "Put \<lparr>Pedersen = (\<lambda>a b. a + b), Hash = (\<lambda>n p. value n)\<rparr>
      (NewTrie emptyStorage 3 None) 5 0 = Some (Ok (), NewTrie emptyStorage 3 None) \<and>
   (\<exists>t'. Put \<lparr>Pedersen = (\<lambda>a b. a + b), Hash = (\<lambda>n p. value n)\<rparr>
          \<lparr>height = 3, rootKey = Some [True, False, True],
           storage = \<lparr>contents = [[True, False, True] \<mapsto> \<lparr>value = 7, left = None, right = None\<rparr>],
                      faults = [], trace = []\<rparr>\<rparr> 4 0 = Some (Ok (), t') \<and>
         rootKey t' = Some [True, False, True] \<and>
         contents (storage t') = [[True, False, True] \<mapsto> \<lparr>value = 7, left = None, right = None\<rparr>] \<and>
         trace (storage t') = [OpGet [True, False, True]])"
proof -
  let ?hs = "\<lparr>Pedersen = (\<lambda>a b. a + b), Hash = (\<lambda>n p. value n)\<rparr>"
  let ?t = "\<lparr>height = 3, rootKey = Some [True, False, True],
           storage = \<lparr>contents = [[True, False, True] \<mapsto> \<lparr>value = 7, left = None, right = None\<rparr>],
                      faults = [], trace = []\<rparr>\<rparr>"
  let ?t' = "\<lparr>height = 3, rootKey = Some [True, False, True],
           storage = \<lparr>contents = [[True, False, True] \<mapsto> \<lparr>value = 7, left = None, right = None\<rparr>],
                      faults = [], trace = [OpGet [True, False, True]]\<rparr>\<rparr>"
  have e: "rootKey (NewTrie emptyStorage 3 None) = None"
    by (simp add: NewTrie_def)
  have a: "rootKey ?t \<noteq> None" "contents (storage ?t) (FeltToBitSet ?t 4) = None"
    by (simp_all add: FeltToBitSet_def upt_rec bit_0)
  have p: "Put ?hs ?t 4 0 = Some (Ok (), ?t')"
    by (simp add: Put_def Let_def FeltToBitSet_def upt_rec bit_0 nodesFromRoot_def
        nodesFromRoot_loop.simps storage_Get_def Storage_Get_def fails_def tick_def
        FindCommonKey_lcp Len_def)
  from C7_Put_zero_noop [of "NewTrie emptyStorage 3 None" ?hs 5] e
  have 1: "Put ?hs (NewTrie emptyStorage 3 None) 5 0 = Some (Ok (), NewTrie emptyStorage 3 None)"
    by blast
  from C7_Put_zero_noop [of ?t ?hs 4 "Ok ()" ?t'] a p
  have 2: "rootKey ?t' = rootKey ?t \<and> contents (storage ?t') = contents (storage ?t)"
    by blast
  show ?thesis
    using 1 2 p by simp
qed

section \<open>The panic branch of propagateValues\<close>

lemma storage_Put_no_Panic: "fst (storage_Put t k n) \<noteq> Panic p"
  by (simp add: storage_Put_def Storage_Put_def)

lemma storage_Get_no_Panic: "fst (storage_Get t k) \<noteq> Panic p"
  by (simp add: storage_Get_def Storage_Get_def split: option.splits)

lemma storage_Delete_no_Panic: "fst (storage_Delete t k) \<noteq> Panic p"
  by (simp add: storage_Delete_def Storage_Delete_def)

lemma on_ok_Panic:
  "fst (on_ok m f) = Panic p \<longleftrightarrow>
     fst m = Panic p \<or> (\<exists>a s. m = (Ok a, s) \<and> fst (f a s) = Panic p)"
  by (cases m; cases "fst m") (auto simp: on_ok_def)

lemma propagateValues_step_no_panic:
  assumes "both_or_neither (node cur)"
  shows "fst (propagateValues_step hs cur t) \<noteq> Panic ''should not happen''"
  using assms storage_Put_no_Panic storage_Get_no_Panic
  unfolding propagateValues_step_def both_or_neither_def
  by (auto simp: on_ok_Panic split: option.splits)

lemma propagateValues_no_panic:
  assumes "list_all (\<lambda>sn. both_or_neither (node sn)) spine"
  shows "fst (propagateValues hs t spine) \<noteq> Panic ''should not happen''"
  using assms
  by (induction spine) (auto simp: on_ok_Panic propagateValues_step_no_panic)

lemma list_all_update:
  "list_all P xs \<Longrightarrow> P y \<Longrightarrow> list_all P (xs[i := y])"
  using set_update_subset_insert [of xs i y] by (auto simp: list_all_iff)

lemma linked_nth:
  "linked xs \<Longrightarrow> Suc i < length xs \<Longrightarrow>
     left (node (xs ! i)) = Some (key (xs ! Suc i)) \<or>
     right (node (xs ! i)) = Some (key (xs ! Suc i))"
proof (induction xs arbitrary: i rule: linked.induct)
  case (1 a b r)
  then show ?case by (cases i) auto
qed simp_all

lemma linked_internal:
  assumes "linked xs" and "Suc i < length xs" and "both_or_neither (node (xs ! i))"
  shows "left (node (xs ! i)) \<noteq> None \<and> right (node (xs ! i)) \<noteq> None"
  using linked_nth [OF assms(1,2)] assms(3) by (auto simp: both_or_neither_def)

lemma store_both_or_neither_stored:
  "store_both_or_neither t \<Longrightarrow> stored t sn \<Longrightarrow> both_or_neither (node sn)"
  by (auto simp: store_both_or_neither_def stored_def)

lemma storage_Delete_binary:
  "store_both_or_neither t \<Longrightarrow> storage_Delete t k = (r, t') \<Longrightarrow> store_both_or_neither t'"
  by (auto simp: store_both_or_neither_def storage_Delete_def Storage_Delete_def tick_def
      split: if_splits)

lemma storage_Get_binary:
  assumes "store_both_or_neither t" and "storage_Get t k = (Ok n, t')"
  shows "both_or_neither n"
  using assms storage_Get_reads(2) [OF assms(2)] by (auto simp: store_both_or_neither_def)

lemma deleteLast_short:
  assumes "length spine < 3"
  shows "fst (deleteLast hs t spine) \<noteq> Panic ''should not happen''"
proof -
  consider "length spine = 0" | "length spine = 1" | "length spine = 2"
    using assms by linarith
  then show ?thesis
  proof cases
    case 1
    then show ?thesis by (simp add: deleteLast_def)
  next
    case 2
    then show ?thesis
      using storage_Delete_no_Panic by (auto simp: deleteLast_def on_ok_Panic)
  next
    case 3
    then show ?thesis
      using storage_Delete_no_Panic by (auto simp: deleteLast_def Let_def on_ok_Panic)
  qed
qed

lemma deleteLast_long:
  assumes "3 \<le> length spine"
  shows "deleteLast hs t spine =
     on_ok (storage_Delete t (key (spine ! (length spine - 1)))) (\<lambda>_ t1.
     on_ok (storage_Delete t1 (key (spine ! (length spine - 2)))) (\<lambda>_ t2.
       case (if left (node (spine ! (length spine - 2))) = Some (key (spine ! (length spine - 1)))
             then right (node (spine ! (length spine - 2)))
             else left (node (spine ! (length spine - 2)))) of
         None \<Rightarrow> (Panic ''nil pointer dereference'', t2)
       | Some sk \<Rightarrow>
           on_ok (storage_Get t2 sk) (\<lambda>sibling t3.
             propagateValues hs t3
               ((take (length spine - 2) spine)
                  [length spine - 3 :=
                     replace_link (spine ! (length spine - 3))
                       (key (spine ! (length spine - 2))) (Some sk)]
                @ [\<lparr>key = sk, node = sibling\<rparr>]))))"
proof -
  have n: "(length spine = 0) = False" "(length spine = 1) = False" "(length spine = 2) = False"
    using assms by auto
  show ?thesis
    unfolding deleteLast_def Let_def n if_False
    by (auto simp: on_ok_def split: prod.splits result.splits option.splits)
qed

lemma replace_link_both:
  assumes "left (node p) \<noteq> None" and "right (node p) \<noteq> None"
  shows "both_or_neither (node (replace_link p old (Some new)))"
  using assms by (auto simp: replace_link_def both_or_neither_def)

lemma deleteLast_no_panic:
  assumes sb: "store_both_or_neither t"
    and bn: "list_all (\<lambda>sn. both_or_neither (node sn)) spine"
    and lk: "linked spine"
  shows "fst (deleteLast hs t spine) \<noteq> Panic ''should not happen''"
proof (cases "length spine < 3")
  case True
  then show ?thesis by (rule deleteLast_short)
next
  case False
  then have n3: "3 \<le> length spine" by simp
  let ?n = "length spine"
  let ?lst = "spine ! (?n - 1)"
  let ?parent = "spine ! (?n - 2)"
  let ?gp = "spine ! (?n - 3)"
  show ?thesis
  proof
    assume p: "fst (deleteLast hs t spine) = Panic ''should not happen''"
    obtain t1 where d1: "storage_Delete t (key ?lst) = (Ok (), t1)"
      using p storage_Delete_no_Panic unfolding deleteLast_long [OF n3]
      by (auto simp: on_ok_Panic)
    obtain t2 where d2: "storage_Delete t1 (key ?parent) = (Ok (), t2)"
      using p d1 storage_Delete_no_Panic unfolding deleteLast_long [OF n3]
      by (auto simp: on_ok_Panic)
    have sb2: "store_both_or_neither t2"
      using sb d1 d2 by (blast intro: storage_Delete_binary)
    obtain sk sibling t3 where g: "storage_Get t2 sk = (Ok sibling, t3)"
      and pv: "fst (propagateValues hs t3
                  ((take (?n - 2) spine)[?n - 3 := replace_link ?gp (key ?parent) (Some sk)]
                     @ [\<lparr>key = sk, node = sibling\<rparr>]))
               = Panic ''should not happen''"
      using p d1 d2 storage_Get_no_Panic unfolding deleteLast_long [OF n3]
      by (auto simp: on_ok_Panic split: if_splits option.splits)
    have bs: "both_or_neither sibling"
      using sb2 g by (rule storage_Get_binary)
    have "both_or_neither (node ?gp)"
      using bn n3 by (simp add: list_all_length)
    moreover have "Suc (?n - 3) = ?n - 2"
      using n3 by simp
    ultimately have gi: "left (node ?gp) \<noteq> None \<and> right (node ?gp) \<noteq> None"
      using linked_internal [OF lk, of "?n - 3"] n3 by simp
    have bg: "both_or_neither (node (replace_link ?gp (key ?parent) (Some sk)))"
      using gi by (simp add: replace_link_both)
    have "list_all (\<lambda>sn. both_or_neither (node sn)) (take (?n - 2) spine)"
      using bn by (auto simp: list_all_iff dest: in_set_takeD)
    then have "list_all (\<lambda>sn. both_or_neither (node sn))
         ((take (?n - 2) spine)[?n - 3 := replace_link ?gp (key ?parent) (Some sk)]
            @ [\<lparr>key = sk, node = sibling\<rparr>])"
      using bg bs by (simp add: list_all_update)
    then show False
      using pv propagateValues_no_panic by blast
  qed
qed

lemma linked_iff_nth:
  "linked xs \<longleftrightarrow>
     (\<forall>i. Suc i < length xs \<longrightarrow>
        left (node (xs ! i)) = Some (key (xs ! Suc i)) \<or>
        right (node (xs ! i)) = Some (key (xs ! Suc i)))"
proof (induction xs rule: linked.induct)
  case (1 a b r)
  show ?case
  proof
    assume "linked (a # b # r)"
    then show "\<forall>i. Suc i < length (a # b # r) \<longrightarrow>
        left (node ((a # b # r) ! i)) = Some (key ((a # b # r) ! Suc i)) \<or>
        right (node ((a # b # r) ! i)) = Some (key ((a # b # r) ! Suc i))"
      using linked_nth by blast
  next
    assume a: "\<forall>i. Suc i < length (a # b # r) \<longrightarrow>
        left (node ((a # b # r) ! i)) = Some (key ((a # b # r) ! Suc i)) \<or>
        right (node ((a # b # r) ! i)) = Some (key ((a # b # r) ! Suc i))"
    have "left (node a) = Some (key b) \<or> right (node a) = Some (key b)"
      using a [rule_format, of 0] by simp
    moreover have "linked (b # r)"
      unfolding 1
    proof (intro allI impI)
      fix i assume "Suc i < length (b # r)"
      then show "left (node ((b # r) ! i)) = Some (key ((b # r) ! Suc i)) \<or>
          right (node ((b # r) ! i)) = Some (key ((b # r) ! Suc i))"
        using a [rule_format, of "Suc i"] by simp
    qed
    ultimately show "linked (a # b # r)" by simp
  qed
qed simp_all

lemma linked_set_last_node:
  assumes "linked xs"
  shows "linked (xs[length xs - 1 := (last xs)\<lparr>node := nd\<rparr>])"
  unfolding linked_iff_nth
proof (intro allI impI)
  fix i assume i: "Suc i < length (xs[length xs - 1 := (last xs)\<lparr>node := nd\<rparr>])"
  then have ne: "xs \<noteq> []" by auto
  have l: "left (node (xs ! i)) = Some (key (xs ! Suc i)) \<or>
        right (node (xs ! i)) = Some (key (xs ! Suc i))"
    using assms i by (simp add: linked_iff_nth)
  have k: "key ((xs[length xs - 1 := (last xs)\<lparr>node := nd\<rparr>]) ! Suc i) = key (xs ! Suc i)"
    using i ne by (cases "Suc i = length xs - 1") (simp_all add: last_conv_nth)
  have n: "(xs[length xs - 1 := (last xs)\<lparr>node := nd\<rparr>]) ! i = xs ! i"
    using i by simp
  show "left (node (xs[length xs - 1 := (last xs)\<lparr>node := nd\<rparr>] ! i)) =
          Some (key (xs[length xs - 1 := (last xs)\<lparr>node := nd\<rparr>] ! Suc i)) \<or>
        right (node (xs[length xs - 1 := (last xs)\<lparr>node := nd\<rparr>] ! i)) =
          Some (key (xs[length xs - 1 := (last xs)\<lparr>node := nd\<rparr>] ! Suc i))"
    unfolding k n by (rule l)
qed

lemma Put_found_no_panic:
  assumes sb: "store_both_or_neither t"
    and bn: "list_all (\<lambda>sn. both_or_neither (node sn)) nodes"
    and lk: "linked nodes"
    and nd: "both_or_neither nd"
  shows "fst (Put_found hs t nd nodes) \<noteq> Panic ''should not happen''"
proof -
  let ?nodes' = "nodes[length nodes - 1 := (last nodes)\<lparr>node := nd\<rparr>]"
  have "list_all (\<lambda>sn. both_or_neither (node sn)) ?nodes'"
    using bn nd by (simp add: list_all_update)
  moreover have "linked ?nodes'"
    using lk by (rule linked_set_last_node)
  ultimately show ?thesis
    using sb by (simp add: Put_found_def Let_def deleteLast_no_panic propagateValues_no_panic)
qed

lemma Put_new_no_panic:
  assumes bn: "list_all (\<lambda>sn. both_or_neither (node sn)) nodes"
    and lk: "linked nodes" and ne: "nodes \<noteq> []"
    and nd: "both_or_neither nd"
  shows "fst (Put_new hs t nodeKey nd nodes) \<noteq> Panic ''should not happen''"
proof (cases "FindCommonKey nodeKey (key (last nodes))")
  case None
  then show ?thesis by (simp add: Put_new_def Let_def)
next
  case (Some cs)
  obtain ck sub where cs: "cs = (ck, sub)" by (cases cs)
  let ?n = "length nodes"
  let ?np = "if Test nodeKey (usub (usub (Len nodeKey) (Len ck)) 1)
             then \<lparr>value = 0, left = Some (key (last nodes)), right = Some nodeKey\<rparr>
             else \<lparr>value = 0, left = Some nodeKey, right = Some (key (last nodes))\<rparr>"
  let ?nodes1 = "if ?n = 1 then nodes
                 else nodes[?n - 2 := replace_link (nodes ! (?n - 2)) (key (last nodes)) (Some ck)]"
  let ?nodes2 = "?nodes1[?n - 1 := \<lparr>key = ck, node = ?np\<rparr>] @ [\<lparr>key = nodeKey, node = nd\<rparr>]"
  have b1: "list_all (\<lambda>sn. both_or_neither (node sn)) ?nodes1"
  proof (cases "?n = 1")
    case True
    then show ?thesis using bn by simp
  next
    case False
    then have n2: "Suc (?n - 2) < ?n" "Suc (?n - 2) = ?n - 1"
      using ne by (cases nodes; simp)+
    have "both_or_neither (node (nodes ! (?n - 2)))"
      using bn n2 by (simp add: list_all_length)
    then have "left (node (nodes ! (?n - 2))) \<noteq> None \<and> right (node (nodes ! (?n - 2))) \<noteq> None"
      using linked_internal [OF lk n2(1)] by simp
    then have "both_or_neither (node (replace_link (nodes ! (?n - 2)) (key (last nodes)) (Some ck)))"
      by (simp add: replace_link_both)
    then show ?thesis
      using bn False by (simp add: list_all_update)
  qed
  have "both_or_neither ?np"
    by (simp add: both_or_neither_def)
  then have "list_all (\<lambda>sn. both_or_neither (node sn)) ?nodes2"
    using b1 nd by (simp add: list_all_update del: One_nat_def)
  then have "fst (propagateValues hs t ?nodes2) \<noteq> Panic ''should not happen''"
    by (rule propagateValues_no_panic)
  moreover have "Put_new hs t nodeKey nd nodes =
      on_ok (propagateValues hs t ?nodes2) (\<lambda>_ t'.
        if ?n = 1 then (Ok (), t'\<lparr>rootKey := Some ck\<rparr>) else (Ok (), t'))"
    using Some cs by (simp add: Put_new_def Let_def)
  ultimately show ?thesis
    by (auto simp: on_ok_Panic)
qed

lemma Put_no_panic:
  assumes sb: "store_both_or_neither t" and p: "Put hs t k v = Some (r, t')"
  shows "r \<noteq> Panic ''should not happen''"
proof (cases "rootKey t")
  case None
  let ?leaf = "\<lparr>key = FeltToBitSet t k, node = \<lparr>value = v, left = None, right = None\<rparr>\<rparr>"
  have "fst (propagateValues hs t [?leaf]) \<noteq> Panic ''should not happen''"
    by (rule propagateValues_no_panic) (simp add: both_or_neither_def)
  then show ?thesis
    using p None unfolding Put_def Let_def
    by (auto simp: on_ok_def split: if_splits prod.splits result.splits)
next
  case (Some rk)
  let ?nk = "FeltToBitSet t k"
  let ?nd = "\<lparr>value = v, left = None, right = None\<rparr>"
  have nd: "both_or_neither ?nd" by (simp add: both_or_neither_def)
  obtain r1 t1 where n: "nodesFromRoot t ?nk = Some (r1, t1)"
    using p Some unfolding Put_def Let_def by (auto split: option.splits)
  have ro: "reads_only t t1"
    using n by (rule nodesFromRoot_reads)
  have sb1: "store_both_or_neither t1"
    using sb ro by (simp add: store_both_or_neither_def reads_only_def)
  show ?thesis
  proof (cases r1)
    case (Err e)
    then show ?thesis using p Some n unfolding Put_def Let_def by auto
  next
    case (Panic q)
    have "q = ''index out of range''"
      using nodesFromRoot_loop_sound [of ?nk "rootKey t" "[]" t "(r1, t1)"] n Panic
      by (simp add: nodesFromRoot_def nodesFromRoot_post_def)
    then show ?thesis using p Some n Panic unfolding Put_def Let_def by auto
  next
    case (Ok nodes)
    have ne: "nodes \<noteq> []" and st: "list_all (stored t) nodes" and lk: "linked nodes"
      using nodesFromRoot_Ok [OF n [unfolded Ok]] Some by simp_all
    have bn: "list_all (\<lambda>sn. both_or_neither (node sn)) nodes"
      using st sb by (auto simp: list_all_iff intro: store_both_or_neither_stored)
    have "fst (Put_found hs t1 ?nd nodes) \<noteq> Panic ''should not happen''"
      using sb1 bn lk nd by (rule Put_found_no_panic)
    moreover have "fst (Put_new hs t1 ?nk ?nd nodes) \<noteq> Panic ''should not happen''"
      using bn lk ne nd by (rule Put_new_no_panic)
    ultimately show ?thesis
      using p Some n Ok ne unfolding Put_def Let_def by (auto split: if_splits)
  qed
qed

text \<open>
  Claim C10. When every node of the spine passed to \<open>propagateValues\<close> has both child
  keys or none, the branch \<open>panic("should not happen")\<close> is not reached. Consequently
  \<open>Put\<close> does not reach it when every node of the store has both child keys or none,
  and neither does \<open>deleteLast\<close> on such a store with a spine of such nodes in which each
  node points to the next one (as the spines built by \<open>nodesFromRoot\<close> are).
\<close>

theorem C10_panic_branch_unreachable:
  "(list_all (\<lambda>sn. both_or_neither (node sn)) spine \<longrightarrow>
      fst (propagateValues hs t spine) \<noteq> Panic ''should not happen'') \<and>
   (store_both_or_neither t \<and> Put hs t k v = Some (r, t') \<longrightarrow>
      r \<noteq> Panic ''should not happen'') \<and>
   (store_both_or_neither t \<and> list_all (\<lambda>sn. both_or_neither (node sn)) spine \<and>
    linked spine \<longrightarrow>
      fst (deleteLast hs t spine) \<noteq> Panic ''should not happen'')"
  using propagateValues_no_panic Put_no_panic deleteLast_no_panic by blast

theorem C10_witness:
  "store_both_or_neither
     \<lparr>height = 3, rootKey = Some [True, False],
      storage = \<lparr>contents =
          [[True, False] \<mapsto> \<lparr>value = 16, left = Some [True, False, False],
                              right = Some [True, False, True]\<rparr>,
           [True, False, False] \<mapsto> \<lparr>value = 9, left = None, right = None\<rparr>,
           [True, False, True] \<mapsto> \<lparr>value = 7, left = None, right = None\<rparr>],
         faults = [], trace = []\<rparr>\<rparr> \<and>
   (\<exists>t'. Put \<lparr>Pedersen = (\<lambda>a b. a + b), Hash = (\<lambda>n p. value n)\<rparr>
          \<lparr>height = 3, rootKey = Some [True, False],
           storage = \<lparr>contents =
               [[True, False] \<mapsto> \<lparr>value = 16, left = Some [True, False, False],
                                   right = Some [True, False, True]\<rparr>,
                [True, False, False] \<mapsto> \<lparr>value = 9, left = None, right = None\<rparr>,
                [True, False, True] \<mapsto> \<lparr>value = 7, left = None, right = None\<rparr>],
              faults = [], trace = []\<rparr>\<rparr> 1 3 = Some (Ok (), t')) \<and>
   Ok () \<noteq> (Panic ''should not happen'' :: unit result)"
proof -
  let ?hs = "\<lparr>Pedersen = (\<lambda>a b. a + b), Hash = (\<lambda>n p. value n)\<rparr>"
  let ?t = "\<lparr>height = 3, rootKey = Some [True, False],
           storage = \<lparr>contents =
               [[True, False] \<mapsto> \<lparr>value = 16, left = Some [True, False, False],
                                   right = Some [True, False, True]\<rparr>,
                [True, False, False] \<mapsto> \<lparr>value = 9, left = None, right = None\<rparr>,
                [True, False, True] \<mapsto> \<lparr>value = 7, left = None, right = None\<rparr>],
              faults = [], trace = []\<rparr>\<rparr>"
  have sb: "store_both_or_neither ?t"
    by (auto simp: store_both_or_neither_def both_or_neither_def split: if_splits)
  have "\<exists>t'. Put ?hs ?t 1 3 = Some (Ok (), t')"
    by (simp add: Put_def Let_def FeltToBitSet_def upt_rec bit_0 nodesFromRoot_def
        nodesFromRoot_loop.simps storage_Get_def Storage_Get_def fails_def tick_def
        FindCommonKey_lcp Len_def Test_def usub_le Put_new_def propagateValues_step_def
        storage_Put_def Storage_Put_def Path_Some)
  then obtain t' where p: "Put ?hs ?t 1 3 = Some (Ok (), t')" ..
  have "Ok () \<noteq> (Panic ''should not happen'' :: unit result)"
    using C10_panic_branch_unreachable [of _ ?hs ?t 1 3 "Ok ()" t'] sb p by blast
  then show ?thesis
    using sb p by blast
qed

section \<open>The order of reads and writes within Put\<close>

lemma demo_Put_4_9:
  "Put demo_hashing demo_trie 4 9 =
     Some (Ok (),
       \<lparr>height = 3, rootKey = Some [True, False],
        storage = \<lparr>contents =
            [[True, False, True] \<mapsto> \<lparr>value = 7, left = None, right = None\<rparr>,
             [True, False, False] \<mapsto> \<lparr>value = 9, left = None, right = None\<rparr>,
             [True, False] \<mapsto> \<lparr>value = 16, left = Some [True, False, False],
                                 right = Some [True, False, True]\<rparr>],
          faults = [],
          trace = [OpGet [True, False, True],
                   OpPut [True, False, False] \<lparr>value = 9, left = None, right = None\<rparr>,
                   OpGet [True, False, False],
                   OpGet [True, False, True],
                   OpPut [True, False] \<lparr>value = 16, left = Some [True, False, False],
                                         right = Some [True, False, True]\<rparr>]\<rparr>\<rparr>)"
  by (simp add: demo_trie_def demo_hashing_def demo_Hash_def Put_def Let_def FeltToBitSet_def
      upt_rec bit_0 nodesFromRoot_def nodesFromRoot_loop.simps storage_Get_def Storage_Get_def
      fails_def tick_def FindCommonKey_lcp Len_def Test_def usub_le Put_new_def
      propagateValues_step_def storage_Put_def Storage_Put_def Path_Some)

text \<open>
  Claim C4, as stated, fails. In a trie that holds the single leaf \<open>101\<close>, the call
  \<open>Put(100, 9)\<close> reads the root during the descent, writes the new leaf, then reads both
  children of the new parent and writes the parent: two reads follow a write.
\<close>

theorem C4_counterexample:
  "Put demo_hashing demo_trie 4 9 =
     Some (Ok (),
       \<lparr>height = 3, rootKey = Some [True, False],
        storage = \<lparr>contents =
            [[True, False, True] \<mapsto> \<lparr>value = 7, left = None, right = None\<rparr>,
             [True, False, False] \<mapsto> \<lparr>value = 9, left = None, right = None\<rparr>,
             [True, False] \<mapsto> \<lparr>value = 16, left = Some [True, False, False],
                                 right = Some [True, False, True]\<rparr>],
          faults = [],
          trace = [OpGet [True, False, True],
                   OpPut [True, False, False] \<lparr>value = 9, left = None, right = None\<rparr>,
                   OpGet [True, False, False],
                   OpGet [True, False, True],
                   OpPut [True, False] \<lparr>value = 16, left = Some [True, False, False],
                                         right = Some [True, False, True]\<rparr>]\<rparr>\<rparr>) \<and>
   trace (storage demo_trie) = [] \<and>
   \<not> reads_before_writes
        [OpGet [True, False, True],
         OpPut [True, False, False] \<lparr>value = 9, left = None, right = None\<rparr>,
         OpGet [True, False, False],
         OpGet [True, False, True],
         OpPut [True, False] \<lparr>value = 16, left = Some [True, False, False],
                               right = Some [True, False, True]\<rparr>]"
  using demo_Put_4_9 by (simp add: reads_before_writes_def demo_trie_def)

lemma storage_Get_trace:
  "storage_Get t k = (r, t') \<Longrightarrow> trace (storage t') = trace (storage t) @ [OpGet k]"
  by (auto simp: storage_Get_def Storage_Get_def tick_def split: if_splits option.splits)

lemma storage_Put_trace:
  "storage_Put t k n = (r, t') \<Longrightarrow> trace (storage t') = trace (storage t) @ [OpPut k n]"
  by (auto simp: storage_Put_def Storage_Put_def tick_def split: if_splits)

lemma storage_Delete_trace:
  "storage_Delete t k = (r, t') \<Longrightarrow> trace (storage t') = trace (storage t) @ [OpDelete k]"
  by (auto simp: storage_Delete_def Storage_Delete_def tick_def split: if_splits)

lemma take2_append:
  assumes "take 2 xs = [a, b]"
  shows "take 2 (xs @ ys) = [a, b]"
proof -
  have "length (take 2 xs) = 2"
    unfolding assms by simp
  then have "2 \<le> length xs" by simp
  then show ?thesis using assms by simp
qed

lemma children_read_before_append:
  "children_read_before a \<Longrightarrow> children_read_before b \<Longrightarrow> children_read_before (a @ b)"
  by (induction a rule: children_read_before.induct)
     (auto split: option.splits simp: take2_append simp del: take_append)

lemma propagation_pattern_append:
  "propagation_pattern a \<Longrightarrow> propagation_pattern b \<Longrightarrow> propagation_pattern (a @ b)"
  by (simp add: propagation_pattern_def children_read_before_append)

lemma trace_ext_trans: "trace_ext t t1 a \<Longrightarrow> trace_ext t1 t2 b \<Longrightarrow> trace_ext t t2 (a @ b)"
  by (simp add: trace_ext_def)

lemma propagateValues_step_trace:
  assumes "propagateValues_step hs cur t = (r, t')"
  shows "\<exists>ws. trace_ext t t' ws \<and> propagation_pattern ws \<and>
           (left (node cur) = None \<and> right (node cur) = None \<longrightarrow> ws = [OpPut (key cur) (node cur)])"
proof (cases "(left (node cur) = None) \<noteq> (right (node cur) = None)")
  case True
  then have "t' = t" using assms by (simp add: propagateValues_step_def)
  then have "trace_ext t t' []" by (simp add: trace_ext_def)
  then show ?thesis using True by (auto simp: propagation_pattern_def)
next
  case False
  show ?thesis
  proof (cases "left (node cur)")
    case None
    then have r: "right (node cur) = None" using False by simp
    have "storage_Put t (key cur) (node cur) = (r, t')"
      using assms None r by (simp add: propagateValues_step_def)
    then have "trace_ext t t' [OpPut (key cur) (node cur)]"
      by (simp add: trace_ext_def storage_Put_trace)
    then show ?thesis using None by (auto simp: propagation_pattern_def)
  next
    case (Some l)
    then obtain rr where rr: "right (node cur) = Some rr" using False by auto
    obtain r1 t1 where g1: "storage_Get t l = (r1, t1)" by (cases "storage_Get t l")
    have e1: "trace_ext t t1 [OpGet l]"
      using g1 by (simp add: trace_ext_def storage_Get_trace)
    show ?thesis
    proof (cases r1)
      case (Ok ln)
      obtain r2 t2 where g2: "storage_Get t1 rr = (r2, t2)" by (cases "storage_Get t1 rr")
      have e2: "trace_ext t t2 [OpGet l, OpGet rr]"
        using e1 g2 by (simp add: trace_ext_def storage_Get_trace)
      show ?thesis
      proof (cases r2)
        case rn: (Ok rn)
        show ?thesis
        proof (cases "Path l (Some (key cur))")
          case None
          then have "t' = t2"
            using assms Some rr g1 Ok g2 rn by (simp add: propagateValues_step_def)
          then show ?thesis using e2 Some by (auto simp: propagation_pattern_def)
        next
          case lp: (Some lp)
          show ?thesis
          proof (cases "Path rr (Some (key cur))")
            case None
            then have "t' = t2"
              using assms Some rr g1 Ok g2 rn lp by (simp add: propagateValues_step_def)
            then show ?thesis using e2 Some by (auto simp: propagation_pattern_def)
          next
            case rp: (Some rp)
            let ?n = "(node cur)\<lparr>value := Pedersen hs (Hash hs ln lp) (Hash hs rn rp)\<rparr>"
            have "storage_Put t2 (key cur) ?n = (r, t')"
              using assms Some rr g1 Ok g2 rn lp rp by (simp add: propagateValues_step_def)
            then have "trace_ext t t' [OpGet l, OpGet rr, OpPut (key cur) ?n]"
              using e2 by (simp add: trace_ext_def storage_Put_trace)
            moreover have "propagation_pattern [OpGet l, OpGet rr, OpPut (key cur) ?n]"
              using Some rr by (simp add: propagation_pattern_def)
            ultimately show ?thesis using Some by auto
          qed
        qed
      next
        case (Err e)
        then have "t' = t2"
          using assms Some rr g1 Ok g2 by (simp add: propagateValues_step_def)
        then show ?thesis using e2 Some by (auto simp: propagation_pattern_def)
      next
        case (Panic p)
        then have "t' = t2"
          using assms Some rr g1 Ok g2 by (simp add: propagateValues_step_def)
        then show ?thesis using e2 Some by (auto simp: propagation_pattern_def)
      qed
    next
      case (Err e)
      then have "t' = t1"
        using assms Some rr g1 by (simp add: propagateValues_step_def)
      then show ?thesis using e1 Some by (auto simp: propagation_pattern_def)
    next
      case (Panic p)
      then have "t' = t1"
        using assms Some rr g1 by (simp add: propagateValues_step_def)
      then show ?thesis using e1 Some by (auto simp: propagation_pattern_def)
    qed
  qed
qed

lemma mutation_refl [simp]: "mutation t t"
  by (auto simp: mutation_def trace_ext_def propagation_pattern_def intro: exI [of _ "[]"])

lemma mutation1_mutation: "mutation1 t t' \<Longrightarrow> mutation t t'"
  by (auto simp: mutation_def mutation1_def)

lemma mutation_trans: "mutation t t1 \<Longrightarrow> mutation t1 t2 \<Longrightarrow> mutation t t2"
  unfolding mutation_def
  by (blast intro: trace_ext_trans propagation_pattern_append)

lemma mutation1_trans: "mutation1 t t1 \<Longrightarrow> mutation t1 t2 \<Longrightarrow> mutation1 t t2"
proof -
  assume "mutation1 t t1" and "mutation t1 t2"
  then obtain a b where a: "trace_ext t t1 a" "propagation_pattern a" "a \<noteq> []" "\<not> is_read (hd a)"
    and b: "trace_ext t1 t2 b" "propagation_pattern b"
    by (auto simp: mutation_def mutation1_def)
  have "trace_ext t t2 (a @ b)" using a(1) b(1) by (rule trace_ext_trans)
  moreover have "propagation_pattern (a @ b)" using a(2) b(2) by (rule propagation_pattern_append)
  moreover have "a @ b \<noteq> []" "\<not> is_read (hd (a @ b))" using a(3,4) by simp_all
  ultimately show ?thesis unfolding mutation1_def by blast
qed

lemma mutation_rootKey: "mutation t t' \<Longrightarrow> mutation t (t'\<lparr>rootKey := rk\<rparr>)"
  by (simp add: mutation_def trace_ext_def)

lemma mutation1_rootKey: "mutation1 t t' \<Longrightarrow> mutation1 t (t'\<lparr>rootKey := rk\<rparr>)"
  by (simp add: mutation1_def trace_ext_def)

lemma storage_Get_mutation: "storage_Get t k = (r, t') \<Longrightarrow> mutation t t'"
  unfolding mutation_def
  by (intro exI [of _ "[OpGet k]"]) (simp add: trace_ext_def storage_Get_trace propagation_pattern_def)

lemma storage_Delete_mutation1: "storage_Delete t k = (r, t') \<Longrightarrow> mutation1 t t'"
  unfolding mutation1_def
  by (intro exI [of _ "[OpDelete k]"])
     (simp add: trace_ext_def storage_Delete_trace propagation_pattern_def)

lemma propagateValues_step_mutation:
  assumes "propagateValues_step hs cur t = (r, t')"
  shows "mutation t t'"
    and "left (node cur) = None \<Longrightarrow> right (node cur) = None \<Longrightarrow> mutation1 t t'"
  using propagateValues_step_trace [OF assms]
  by (auto simp: mutation_def mutation1_def)

lemma propagateValues_mutation:
  "propagateValues hs t spine = (r, t') \<Longrightarrow> mutation t t'"
proof (induction spine arbitrary: r t')
  case Nil
  then show ?case by simp
next
  case (Cons cur deeper)
  obtain r1 t1 where d: "propagateValues hs t deeper = (r1, t1)"
    by (cases "propagateValues hs t deeper")
  have m1: "mutation t t1" using d by (rule Cons.IH)
  show ?case
  proof (cases r1)
    case (Ok a)
    then have "propagateValues_step hs cur t1 = (r, t')"
      using Cons.prems d by simp
    then show ?thesis
      using m1 by (blast intro: mutation_trans propagateValues_step_mutation(1))
  qed (use Cons.prems d m1 in auto)
qed

lemma propagateValues_mutation1:
  assumes "propagateValues hs t spine = (r, t')" and "spine \<noteq> []"
    and "left (node (last spine)) = None" and "right (node (last spine)) = None"
  shows "mutation1 t t'"
  using assms
proof (induction spine arbitrary: r t')
  case Nil
  then show ?case by simp
next
  case (Cons cur deeper)
  show ?case
  proof (cases "deeper = []")
    case True
    then have "propagateValues_step hs cur t = (r, t')"
      using Cons.prems(1) by simp
    then show ?thesis
      using Cons.prems(3,4) True by (auto intro: propagateValues_step_mutation(2))
  next
    case False
    obtain r1 t1 where d: "propagateValues hs t deeper = (r1, t1)"
      by (cases "propagateValues hs t deeper")
    have m1: "mutation1 t t1"
      using d False Cons.prems(3,4) by (intro Cons.IH) simp_all
    show ?thesis
    proof (cases r1)
      case (Ok a)
      then have "propagateValues_step hs cur t1 = (r, t')"
        using Cons.prems(1) d by simp
      then show ?thesis
        using m1 by (blast intro: mutation1_trans propagateValues_step_mutation(1))
    qed (use Cons.prems d m1 in auto)
  qed
qed

lemma on_ok_mutation:
  assumes "on_ok m f = (r, t')" and "mutation t (snd m)"
    and "\<And>a s r' t''. m = (Ok a, s) \<Longrightarrow> f a s = (r', t'') \<Longrightarrow> mutation s t''"
  shows "mutation t t'"
  using assms by (auto simp: on_ok_eq intro: mutation_trans)

lemma on_ok_mutation1:
  assumes "on_ok m f = (r, t')" and "mutation1 t (snd m)"
    and "\<And>a s r' t''. m = (Ok a, s) \<Longrightarrow> f a s = (r', t'') \<Longrightarrow> mutation s t''"
  shows "mutation1 t t'"
  using assms by (auto simp: on_ok_eq intro: mutation1_trans)

lemma deleteLast_one:
  assumes "length spine = 1"
  shows "deleteLast hs t spine =
     on_ok (storage_Delete t (key (spine ! (length spine - 1))))
       (\<lambda>_ t1. (Ok (), t1\<lparr>rootKey := None\<rparr>))"
proof -
  have n: "(length spine = 0) = False" "(length spine = 1) = True"
    using assms by auto
  show ?thesis
    unfolding deleteLast_def Let_def n if_False if_True ..
qed

lemma deleteLast_two:
  assumes "length spine = 2"
  shows "deleteLast hs t spine =
     on_ok (storage_Delete t (key (spine ! (length spine - 1)))) (\<lambda>_ t1.
     on_ok (storage_Delete t1 (key (spine ! (length spine - 2)))) (\<lambda>_ t2.
       (Ok (), t2\<lparr>rootKey :=
          (if left (node (spine ! (length spine - 2))) = Some (key (spine ! (length spine - 1)))
           then right (node (spine ! (length spine - 2)))
           else left (node (spine ! (length spine - 2))))\<rparr>)))"
proof -
  have n: "(length spine = 0) = False" "(length spine = 1) = False" "(length spine = 2) = True"
    using assms by auto
  show ?thesis
    unfolding deleteLast_def Let_def n if_False if_True ..
qed

lemma deleteLast_mutation:
  assumes "deleteLast hs t spine = (r, t')"
  shows "t' = t \<or> mutation1 t t'"
proof -
  let ?n = "length spine"
  consider "?n = 0" | "?n = 1" | "?n = 2" | "3 \<le> ?n" by linarith
  then show ?thesis
  proof cases
    case 1
    then show ?thesis using assms by (simp add: deleteLast_def)
  next
    case 2
    have "mutation1 t t'"
    proof (rule on_ok_mutation1)
      show "on_ok (storage_Delete t (key (spine ! (?n - 1))))
              (\<lambda>_ t1. (Ok (), t1\<lparr>rootKey := None\<rparr>)) = (r, t')"
        using assms unfolding deleteLast_one [OF 2] .
      show "mutation1 t (snd (storage_Delete t (key (spine ! (?n - 1)))))"
        by (rule storage_Delete_mutation1 [of t "key (spine ! (?n - 1))"
            "fst (storage_Delete t (key (spine ! (?n - 1))))"]) simp
    qed (auto intro: mutation_rootKey)
    then show ?thesis ..
  next
    case 3
    have "mutation1 t t'"
    proof (rule on_ok_mutation1)
      show "on_ok (storage_Delete t (key (spine ! (?n - 1))))
              (\<lambda>_ t1. on_ok (storage_Delete t1 (key (spine ! (?n - 2))))
                 (\<lambda>_ t2. (Ok (), t2\<lparr>rootKey :=
                     (if left (node (spine ! (?n - 2))) = Some (key (spine ! (?n - 1)))
                      then right (node (spine ! (?n - 2)))
                      else left (node (spine ! (?n - 2))))\<rparr>))) = (r, t')"
        using assms unfolding deleteLast_two [OF 3] .
      show "mutation1 t (snd (storage_Delete t (key (spine ! (?n - 1)))))"
        by (rule storage_Delete_mutation1 [of t "key (spine ! (?n - 1))"
            "fst (storage_Delete t (key (spine ! (?n - 1))))"]) simp
    next
      fix a s r' t''
      assume "on_ok (storage_Delete s (key (spine ! (?n - 2))))
                 (\<lambda>_ t2. (Ok (), t2\<lparr>rootKey :=
                     (if left (node (spine ! (?n - 2))) = Some (key (spine ! (?n - 1)))
                      then right (node (spine ! (?n - 2)))
                      else left (node (spine ! (?n - 2))))\<rparr>)) = (r', t'')"
      then show "mutation s t''"
        by (auto simp: on_ok_eq
            intro!: mutation1_mutation mutation1_rootKey dest: storage_Delete_mutation1)
    qed
    then show ?thesis ..
  next
    case 4
    have "mutation1 t t'"
    proof (rule on_ok_mutation1 [OF assms [unfolded deleteLast_long [OF 4]]])
      show "mutation1 t (snd (storage_Delete t (key (spine ! (?n - 1)))))"
        by (rule storage_Delete_mutation1 [of t "key (spine ! (?n - 1))"
            "fst (storage_Delete t (key (spine ! (?n - 1))))"]) simp
    next
      fix a s r' t''
      assume "on_ok (storage_Delete s (key (spine ! (?n - 2))))
         (\<lambda>_ t2.
           case (if left (node (spine ! (?n - 2))) = Some (key (spine ! (?n - 1)))
                 then right (node (spine ! (?n - 2)))
                 else left (node (spine ! (?n - 2)))) of
             None \<Rightarrow> (Panic ''nil pointer dereference'', t2)
           | Some sk \<Rightarrow>
               on_ok (storage_Get t2 sk) (\<lambda>sibling t3.
                 propagateValues hs t3
                   ((take (?n - 2) spine)
                      [?n - 3 := replace_link (spine ! (?n - 3)) (key (spine ! (?n - 2))) (Some sk)]
                    @ [\<lparr>key = sk, node = sibling\<rparr>]))) = (r', t'')"
      then show "mutation s t''"
      proof (rule on_ok_mutation)
        show "mutation s (snd (storage_Delete s (key (spine ! (?n - 2)))))"
          by (rule mutation1_mutation, rule storage_Delete_mutation1
              [of s "key (spine ! (?n - 2))" "fst (storage_Delete s (key (spine ! (?n - 2))))"])
             simp
      next
        fix a2 s2 r2 t2'
        assume "(case (if left (node (spine ! (?n - 2))) = Some (key (spine ! (?n - 1)))
                 then right (node (spine ! (?n - 2)))
                 else left (node (spine ! (?n - 2)))) of
             None \<Rightarrow> (Panic ''nil pointer dereference'', s2)
           | Some sk \<Rightarrow>
               on_ok (storage_Get s2 sk) (\<lambda>sibling t3.
                 propagateValues hs t3
                   ((take (?n - 2) spine)
                      [?n - 3 := replace_link (spine ! (?n - 3)) (key (spine ! (?n - 2))) (Some sk)]
                    @ [\<lparr>key = sk, node = sibling\<rparr>]))) = (r2, t2')"
        then show "mutation s2 t2'"
          by (auto simp: on_ok_eq split: option.splits if_splits
              dest!: storage_Get_mutation propagateValues_mutation intro: mutation_trans)
      qed
    qed
    then show ?thesis ..
  qed
qed

lemma Put_found_mutation:
  assumes "Put_found hs t nd nodes = (r, t')" and "nodes \<noteq> []"
    and "left nd = None" and "right nd = None"
  shows "t' = t \<or> mutation1 t t'"
proof (cases "value nd = 0")
  case True
  then show ?thesis
    using assms(1) by (simp add: Put_found_def Let_def deleteLast_mutation)
next
  case False
  let ?nodes' = "nodes[length nodes - 1 := (last nodes)\<lparr>node := nd\<rparr>]"
  have "propagateValues hs t ?nodes' = (r, t')"
    using assms(1) False by (simp add: Put_found_def Let_def)
  moreover have "?nodes' \<noteq> []" "last ?nodes' = (last nodes)\<lparr>node := nd\<rparr>"
    using assms(2) by (simp_all add: last_list_update)
  ultimately have "mutation1 t t'"
    using assms(3,4) by (intro propagateValues_mutation1 [of hs t ?nodes' r t']) simp_all
  then show ?thesis ..
qed

lemma Put_new_mutation:
  assumes "Put_new hs t nodeKey nd nodes = (r, t')"
    and "left nd = None" and "right nd = None"
  shows "t' = t \<or> mutation1 t t'"
proof (cases "FindCommonKey nodeKey (key (last nodes))")
  case None
  then show ?thesis using assms(1) by (simp add: Put_new_def Let_def)
next
  case (Some cs)
  obtain ck sub where cs: "cs = (ck, sub)" by (cases cs)
  let ?n = "length nodes"
  let ?np = "if Test nodeKey (usub (usub (Len nodeKey) (Len ck)) 1)
             then \<lparr>value = 0, left = Some (key (last nodes)), right = Some nodeKey\<rparr>
             else \<lparr>value = 0, left = Some nodeKey, right = Some (key (last nodes))\<rparr>"
  let ?nodes1 = "if ?n = 1 then nodes
                 else nodes[?n - 2 := replace_link (nodes ! (?n - 2)) (key (last nodes)) (Some ck)]"
  let ?nodes2 = "?nodes1[?n - 1 := \<lparr>key = ck, node = ?np\<rparr>] @ [\<lparr>key = nodeKey, node = nd\<rparr>]"
  have "Put_new hs t nodeKey nd nodes =
      on_ok (propagateValues hs t ?nodes2) (\<lambda>_ t'.
        if ?n = 1 then (Ok (), t'\<lparr>rootKey := Some ck\<rparr>) else (Ok (), t'))"
    using Some cs by (simp add: Put_new_def Let_def)
  then have e: "on_ok (propagateValues hs t ?nodes2) (\<lambda>_ t'.
        if ?n = 1 then (Ok (), t'\<lparr>rootKey := Some ck\<rparr>) else (Ok (), t')) = (r, t')"
    using assms(1) by (simp only:)
  have "mutation1 t t'"
  proof (rule on_ok_mutation1 [OF e])
    show "mutation1 t (snd (propagateValues hs t ?nodes2))"
      using assms(2,3)
      by (intro propagateValues_mutation1
          [of hs t ?nodes2 "fst (propagateValues hs t ?nodes2)"]) simp_all
  qed (auto split: if_splits intro: mutation_rootKey)
  then show ?thesis ..
qed

text \<open>
  Claim C4, amended. Within a single call to \<open>Put\<close> that returns, the operations
  issued to the store are the reads of the descent (those of \<open>nodesFromRoot\<close>; none on
  an empty trie) followed by the operations of the mutation. The mutation issues nothing
  or starts with a write or a delete, so every read of the descent comes before every
  write. Within the mutation, each write of a node with two children is immediately
  preceded by the reads of its left and of its right child: reads and writes alternate
  along the spine.
\<close>

theorem C4_descent_reads_then_propagation:
  assumes "Put hs t k v = Some (r, t')"
  shows "\<exists>ks ws. trace (storage t') = trace (storage t) @ map OpGet ks @ ws \<and>
           (case rootKey t of
              None \<Rightarrow> ks = []
            | Some rk \<Rightarrow>
                (\<exists>r1 t1. nodesFromRoot t (FeltToBitSet t k) = Some (r1, t1) \<and>
                   trace (storage t1) = trace (storage t) @ map OpGet ks)) \<and>
           (ws = [] \<or> \<not> is_read (hd ws)) \<and> propagation_pattern ws"
proof -
  let ?nk = "FeltToBitSet t k"
  let ?nd = "\<lparr>value = v, left = None, right = None\<rparr>"
  have fin: "\<exists>ws. trace (storage t') = trace (storage t1) @ ws \<and>
           (ws = [] \<or> \<not> is_read (hd ws)) \<and> propagation_pattern ws"
    if "t' = t1 \<or> mutation1 t1 t'" for t1
    using that
    by (auto simp: mutation1_def trace_ext_def propagation_pattern_def intro: exI [of _ "[]"])
  show ?thesis
  proof (cases "rootKey t")
    case None
    have "t' = t \<or> mutation1 t t'"
    proof (cases "v = 0")
      case True
      then show ?thesis using assms None by (simp add: Put_def)
    next
      case False
      then have e: "on_ok (propagateValues hs t [\<lparr>key = ?nk, node = ?nd\<rparr>])
                  (\<lambda>_ t'. (Ok (), t'\<lparr>rootKey := Some ?nk\<rparr>)) = (r, t')"
        using assms None by (simp add: Put_def Let_def)
      have "mutation1 t t'"
      proof (rule on_ok_mutation1 [OF e])
        show "mutation1 t (snd (propagateValues hs t [\<lparr>key = ?nk, node = ?nd\<rparr>]))"
          by (intro propagateValues_mutation1 [of hs t "[\<lparr>key = ?nk, node = ?nd\<rparr>]"
                "fst (propagateValues hs t [\<lparr>key = ?nk, node = ?nd\<rparr>])"]) simp_all
      qed (auto intro: mutation_rootKey)
      then show ?thesis ..
    qed
    from fin [OF this] obtain ws where "trace (storage t') = trace (storage t) @ ws"
      "ws = [] \<or> \<not> is_read (hd ws)" "propagation_pattern ws" by blast
    then show ?thesis
      using None by (intro exI [of _ "[]"] exI [of _ ws]) simp
  next
    case (Some rk)
    obtain r1 t1 where n: "nodesFromRoot t ?nk = Some (r1, t1)"
      using assms Some unfolding Put_def Let_def by (auto split: option.splits)
    obtain ks where ks: "trace (storage t1) = trace (storage t) @ map OpGet ks"
      using nodesFromRoot_reads [OF n] by (auto simp: reads_only_def)
    have "t' = t1 \<or> mutation1 t1 t'"
    proof (cases r1)
      case (Ok nodes)
      have ne: "nodes \<noteq> []"
        using nodesFromRoot_Ok [OF n [unfolded Ok]] Some by simp
      consider "Put_found hs t1 ?nd nodes = (r, t')" | "t' = t1"
        | "Put_new hs t1 ?nk ?nd nodes = (r, t')"
        using assms Some n Ok ne unfolding Put_def Let_def by (auto split: if_splits)
      then show ?thesis
      proof cases
        case 1
        then show ?thesis using ne by (intro Put_found_mutation [of hs t1 ?nd nodes r]) simp_all
      next
        case 2
        then show ?thesis ..
      next
        case 3
        then show ?thesis by (intro Put_new_mutation [of hs t1 ?nk ?nd nodes r]) simp_all
      qed
    qed (use assms Some n in \<open>auto simp: Put_def Let_def\<close>)
    from fin [OF this] obtain ws where "trace (storage t') = trace (storage t1) @ ws"
      "ws = [] \<or> \<not> is_read (hd ws)" "propagation_pattern ws" by blast
    then show ?thesis
      using Some n ks by (intro exI [of _ ks] exI [of _ ws]) simp
  qed
qed

theorem C4_witness:
  "Put demo_hashing demo_trie 4 9 =
     Some (Ok (),
       \<lparr>height = 3, rootKey = Some [True, False],
        storage = \<lparr>contents =
            [[True, False, True] \<mapsto> \<lparr>value = 7, left = None, right = None\<rparr>,
             [True, False, False] \<mapsto> \<lparr>value = 9, left = None, right = None\<rparr>,
             [True, False] \<mapsto> \<lparr>value = 16, left = Some [True, False, False],
                                 right = Some [True, False, True]\<rparr>],
          faults = [],
          trace = [OpGet [True, False, True],
                   OpPut [True, False, False] \<lparr>value = 9, left = None, right = None\<rparr>,
                   OpGet [True, False, False],
                   OpGet [True, False, True],
                   OpPut [True, False] \<lparr>value = 16, left = Some [True, False, False],
                                         right = Some [True, False, True]\<rparr>]\<rparr>\<rparr>) \<and>
   (\<exists>ks ws.
       [OpGet [True, False, True],
        OpPut [True, False, False] \<lparr>value = 9, left = None, right = None\<rparr>,
        OpGet [True, False, False],
        OpGet [True, False, True],
        OpPut [True, False] \<lparr>value = 16, left = Some [True, False, False],
                              right = Some [True, False, True]\<rparr>] = map OpGet ks @ ws \<and>
       (ws = [] \<or> \<not> is_read (hd ws)) \<and> propagation_pattern ws)"
proof -
  from C4_descent_reads_then_propagation [OF demo_Put_4_9]
  obtain ks ws where
    "[OpGet [True, False, True],
        OpPut [True, False, False] \<lparr>value = 9, left = None, right = None\<rparr>,
        OpGet [True, False, False],
        OpGet [True, False, True],
        OpPut [True, False] \<lparr>value = 16, left = Some [True, False, False],
                              right = Some [True, False, True]\<rparr>] = map OpGet ks @ ws"
    "ws = [] \<or> \<not> is_read (hd ws)" "propagation_pattern ws"
    by (auto simp: demo_trie_def)
  then show ?thesis
    using demo_Put_4_9 by blast
qed

end
